theory Spec2Isabelle
  imports Complex_Main "HOL-Library.Word"
begin

section \<open>CDFSManager.py: the CDFS archive tool\<close>

text \<open>
  A shallow embedding of \<^verbatim>\<open>src/CDFSManager.py\<close>. Bytes are 8-bit words, a Python
  \<^verbatim>\<open>bytes\<close>/\<^verbatim>\<open>bytearray\<close> is a list of them, a Python \<^verbatim>\<open>str\<close> is its list of Unicode
  code points, Python integers are \<open>int\<close> (or \<open>nat\<close> where the source can only hold a
  length, an index or an unsigned field read by \<^verbatim>\<open>struct.unpack\<close>). An exception is a
  value of \<open>py_error\<close>, returned on the left of a sum.
\<close>

type_synonym byte = "8 word"
type_synonym bytes = "byte list"
type_synonym codepoint = nat
type_synonym str = "codepoint list"

datatype py_error =
    UnicodeDecodeError
  | UnicodeEncodeError
  | StructError
  | ZeroDivisionError
  | OSError

definition CDFS_MAGIC :: nat where
  "CDFS_MAGIC = 0x43444653"

definition CDFS_VERSION :: nat where
  "CDFS_VERSION = 1"

subsection \<open>The Python library functions the code calls\<close>

text \<open>
  \<^verbatim>\<open>str.encode('utf-8')\<close> and \<^verbatim>\<open>bytes.decode('utf-8')\<close> in the strict mode the code
  uses: a lone surrogate cannot be encoded; an overlong form, a surrogate, a value above
  U+10FFFF, a stray continuation byte or a truncated sequence cannot be decoded.
\<close>

definition byte_of :: "nat \<Rightarrow> byte" where
  "byte_of n = of_nat n"

definition is_cont :: "byte \<Rightarrow> bool" where
  "is_cont b = (0x80 \<le> unat b \<and> unat b < 0xC0)"

definition cont_bits :: "byte \<Rightarrow> nat" where
  "cont_bits b = unat b - 0x80"

text \<open>The first code point of a non-empty byte string, and how many continuation bytes it took.\<close>

definition decode_one :: "bytes \<Rightarrow> (codepoint \<times> nat) option" where
  "decode_one bs =
     (let b0 = unat (hd bs) in
      if b0 < 0x80 then Some (b0, 0)
      else if 0xC0 \<le> b0 \<and> b0 < 0xE0 then
        (if 2 \<le> length bs \<and> is_cont (bs ! 1) then
           (let c = (b0 - 0xC0) * 64 + cont_bits (bs ! 1) in
            if 0x80 \<le> c then Some (c, 1) else None)
         else None)
      else if 0xE0 \<le> b0 \<and> b0 < 0xF0 then
        (if 3 \<le> length bs \<and> is_cont (bs ! 1) \<and> is_cont (bs ! 2) then
           (let c = (b0 - 0xE0) * 4096 + cont_bits (bs ! 1) * 64 + cont_bits (bs ! 2) in
            if 0x800 \<le> c \<and> \<not> (0xD800 \<le> c \<and> c < 0xE000) then Some (c, 2) else None)
         else None)
      else if 0xF0 \<le> b0 \<and> b0 < 0xF8 then
        (if 4 \<le> length bs \<and> is_cont (bs ! 1) \<and> is_cont (bs ! 2) \<and> is_cont (bs ! 3) then
           (let c = (b0 - 0xF0) * 262144 + cont_bits (bs ! 1) * 4096
                    + cont_bits (bs ! 2) * 64 + cont_bits (bs ! 3) in
            if 0x10000 \<le> c \<and> c < 0x110000 then Some (c, 3) else None)
         else None)
      else None)"

function utf8_decode :: "bytes \<Rightarrow> py_error + str" where
  "utf8_decode bs =
     (if bs = [] then Inr []
      else case decode_one bs of
             None \<Rightarrow> Inl UnicodeDecodeError
           | Some (c, k) \<Rightarrow>
               (case utf8_decode (drop (Suc k) bs) of
                  Inl e \<Rightarrow> Inl e
                | Inr s \<Rightarrow> Inr (c # s)))"
  by pat_completeness auto
termination
  by (relation "measure length") auto

declare utf8_decode.simps [simp del]

definition encode_cp :: "codepoint \<Rightarrow> py_error + bytes" where
  "encode_cp c =
     (if c < 0x80 then Inr [byte_of c]
      else if c < 0x800 then Inr [byte_of (0xC0 + c div 64), byte_of (0x80 + c mod 64)]
      else if 0xD800 \<le> c \<and> c < 0xE000 then Inl UnicodeEncodeError
      else if c < 0x10000 then
        Inr [byte_of (0xE0 + c div 4096), byte_of (0x80 + c div 64 mod 64),
             byte_of (0x80 + c mod 64)]
      else if c < 0x110000 then
        Inr [byte_of (0xF0 + c div 262144), byte_of (0x80 + c div 4096 mod 64),
             byte_of (0x80 + c div 64 mod 64), byte_of (0x80 + c mod 64)]
      else Inl UnicodeEncodeError)"

fun utf8_encode :: "str \<Rightarrow> py_error + bytes" where
  "utf8_encode [] = Inr []"
| "utf8_encode (c # s) =
     (case encode_cp c of
        Inl e \<Rightarrow> Inl e
      | Inr bs \<Rightarrow> (case utf8_encode s of Inl e \<Rightarrow> Inl e | Inr r \<Rightarrow> Inr (bs @ r)))"

text \<open>\<^verbatim>\<open>bytes.decode('ascii')\<close>: every byte must be below 0x80.\<close>

definition ascii_decode :: "bytes \<Rightarrow> py_error + str" where
  "ascii_decode bs =
     (if list_all (\<lambda>b. unat b < 0x80) bs then Inr (map unat bs) else Inl UnicodeDecodeError)"

text \<open>
  \<^verbatim>\<open>str.upper()\<close> maps every code point to one or more code points. On ASCII it is the
  usual letter shift; beyond ASCII the mapping is the Unicode character database's, which
  is not part of the program and is taken as the parameter \<open>ucd\<close>.
\<close>

definition upper_cp :: "(codepoint \<Rightarrow> str) \<Rightarrow> codepoint \<Rightarrow> str" where
  "upper_cp ucd c =
     (if c < 128 then [if 97 \<le> c \<and> c \<le> 122 then c - 32 else c] else ucd c)"

definition py_upper :: "(codepoint \<Rightarrow> str) \<Rightarrow> str \<Rightarrow> str" where
  "py_upper ucd s = concat (map (upper_cp ucd) s)"

text \<open>\<^verbatim>\<open>s.replace(a, b)\<close> for one-character \<open>a\<close> and \<open>b\<close>.\<close>

definition replace_cp :: "codepoint \<Rightarrow> codepoint \<Rightarrow> str \<Rightarrow> str" where
  "replace_cp a b s = map (\<lambda>c. if c = a then b else c) s"

text \<open>
  \<^verbatim>\<open>struct.pack\<close> and \<^verbatim>\<open>struct.unpack\<close> with a format of \<open>n\<close> unsigned 32-bit fields
  (\<^verbatim>\<open>'<I...I'\<close>): packing raises \<^verbatim>\<open>struct.error\<close> on a value outside \<open>0 .. 2^32 - 1\<close>,
  unpacking on a buffer whose length is not \<open>4 * n\<close>.
\<close>

definition le32 :: "nat \<Rightarrow> bytes" where
  "le32 n = [byte_of (n mod 256), byte_of (n div 256 mod 256),
             byte_of (n div 65536 mod 256), byte_of (n div 16777216 mod 256)]"

definition be32 :: "nat \<Rightarrow> bytes" where
  "be32 n = rev (le32 n)"

definition struct_pack_I :: "int list \<Rightarrow> py_error + bytes" where
  "struct_pack_I vs =
     (if list_all (\<lambda>v. 0 \<le> v \<and> v < 4294967296) vs
      then Inr (concat (map (\<lambda>v. le32 (nat v)) vs))
      else Inl StructError)"

definition unpack_u32 :: "bytes \<Rightarrow> nat" where
  "unpack_u32 bs = unat (bs ! 0) + 256 * unat (bs ! 1) + 65536 * unat (bs ! 2)
                   + 16777216 * unat (bs ! 3)"

definition struct_unpack_I :: "nat \<Rightarrow> bytes \<Rightarrow> py_error + nat list" where
  "struct_unpack_I n data =
     (if length data \<noteq> 4 * n then Inl StructError
      else Inr (map (\<lambda>i. unpack_u32 (take 4 (drop (4 * i) data))) [0..<n]))"

text \<open>
  A file as its bytes. Writing \<open>data\<close> at position \<open>pos\<close> (\<^verbatim>\<open>f.seek(pos); f.write(data)\<close>)
  overwrites what is there and, past the end, fills the gap with zero bytes.
\<close>

definition write_at :: "bytes \<Rightarrow> nat \<Rightarrow> bytes \<Rightarrow> bytes" where
  "write_at f pos data =
     take pos f @ replicate (pos - length f) 0 @ data @ drop (pos + length data) f"

text \<open>
  What the program reaches of its host: the case mapping of \<^verbatim>\<open>str.upper\<close> beyond ASCII,
  \<^verbatim>\<open>os.path.split\<close> and \<^verbatim>\<open>os.path.join\<close> (which differ between platforms), what reading a
  source file gives a pack worker, and what creating the directories and opening the
  destination file raises, if anything, in an unpack worker.
\<close>

record host =
  ucd_upper :: "codepoint \<Rightarrow> str"
  os_path_split :: "str \<Rightarrow> str \<times> str"
  os_path_join :: "str list \<Rightarrow> str"
  read_file :: "str \<Rightarrow> py_error + bytes"
  open_error :: "str \<Rightarrow> py_error option"

text \<open>The lines the program prints on an error or a warning.\<close>

datatype message =
    Error_invalid_format nat
  | Error_packing_file nat py_error
  | Error_unpacking str py_error
  | Error_too_small
  | Warning_version_mismatch nat
  | Error_first_sector_offset nat nat
  | Error_file_table_length nat nat
  | Error_truncated_file_table nat
  | Error_truncated_string_table
  | Error_entry_beyond_end nat
  | Error_filename_offset nat
  | Error_dirname_offset nat
  | Error_string_references nat
  | Error_during_verification py_error

subsection \<open>The string table\<close>

text \<open>\<^verbatim>\<open>unpack_string_from_table\<close>: the loop that moves \<open>end\<close>, then the slice and its decoding.\<close>

function unpack_string_end :: "bytes \<Rightarrow> nat \<Rightarrow> nat" where
  "unpack_string_end string_table e =
     (if e < length string_table \<and> string_table ! e \<noteq> 0
      then unpack_string_end string_table (e + 1)
      else e)"
  by pat_completeness auto
termination
  by (relation "measure (\<lambda>(string_table, e). length string_table - e)") auto

declare unpack_string_end.simps [simp del]

definition unpack_string_from_table :: "bytes \<Rightarrow> nat \<Rightarrow> py_error + str" where
  "unpack_string_from_table string_table offset =
     utf8_decode (take (unpack_string_end string_table offset - offset) (drop offset string_table))"

text \<open>
  \<^verbatim>\<open>add_string_to_table\<close>. The scan compares \<open>len(string_value)\<close> bytes (the number of
  characters of the string) with the encoded string, and steps from one null byte to
  the byte after it. The table and the cache are mutated in place by the source and
  returned here.
\<close>

function add_string_scan :: "bytes \<Rightarrow> bytes \<Rightarrow> nat \<Rightarrow> nat \<Rightarrow> nat option" where
  "add_string_scan string_table encoded n index =
     (if index + n < length string_table then
        (if take n (drop index string_table) = encoded \<and> string_table ! (index + n) = 0
         then Some index
         else add_string_scan string_table encoded n
                (index + length (takeWhile (\<lambda>b. b \<noteq> 0) (drop index string_table)) + 1))
      else None)"
  by pat_completeness auto
termination
  by (relation "measure (\<lambda>(string_table, encoded, n, index). length string_table - index)") auto

declare add_string_scan.simps [simp del]

definition add_string_to_table ::
  "(codepoint \<Rightarrow> str) \<Rightarrow> bytes \<Rightarrow> (str \<rightharpoonup> nat) \<Rightarrow> str
     \<Rightarrow> py_error + (nat \<times> bytes \<times> (str \<rightharpoonup> nat))" where
  "add_string_to_table ucd string_table string_cache string_value0 =
     (let string_value = py_upper ucd string_value0 in
      case string_cache string_value of
        Some index \<Rightarrow> Inr (index, string_table, string_cache)
      | None \<Rightarrow>
          (case utf8_encode string_value of
             Inl e \<Rightarrow> Inl e
           | Inr encoded \<Rightarrow>
               (case add_string_scan string_table encoded (length string_value) 0 of
                  Some index \<Rightarrow>
                    Inr (index, string_table, string_cache(string_value \<mapsto> index))
                | None \<Rightarrow>
                    Inr (length string_table, string_table @ encoded @ [0],
                         string_cache(string_value \<mapsto> length string_table)))))"

subsection \<open>Packing\<close>

text \<open>
  The walk of \<^verbatim>\<open>pack_cdfs\<close> (\<^verbatim>\<open>os.walk\<close>, \<^verbatim>\<open>os.path.relpath\<close>, \<^verbatim>\<open>os.path.getsize\<close>) is
  the host's; the model starts from its result, the list \<^verbatim>\<open>file_paths\<close> in discovery
  order.
\<close>

record file_info =
  fi_path :: str
  fi_rel_path :: str
  fi_size :: int

text \<open>
  An entry of pack's \<^verbatim>\<open>file_table\<close>. The source adds the key \<^verbatim>\<open>start_sector\<close> in a
  later loop; until then the field is 0 here.
\<close>

record pack_entry =
  pe_file_name_offset :: nat
  pe_dir_name_offset :: nat
  pe_path :: str
  pe_size :: int
  pe_start_sector :: int

text \<open>A \<^verbatim>\<open>for\<close> loop whose body may raise: the state is threaded until the first exception.\<close>

fun for_each :: "('a \<Rightarrow> 's \<Rightarrow> py_error + 's) \<Rightarrow> 'a list \<Rightarrow> 's \<Rightarrow> py_error + 's" where
  "for_each body [] s = Inr s"
| "for_each body (x # xs) s =
     (case body x s of Inl e \<Rightarrow> Inl e | Inr s' \<Rightarrow> for_each body xs s')"

text \<open>The body of the loop over \<^verbatim>\<open>file_paths\<close> that fills the string table and the file table.\<close>

definition add_file ::
  "host \<Rightarrow> file_info \<Rightarrow> pack_entry list \<times> bytes \<times> (str \<rightharpoonup> nat) \<times> int
     \<Rightarrow> py_error + (pack_entry list \<times> bytes \<times> (str \<rightharpoonup> nat) \<times> int)" where
  "add_file h file_info st =
     (case st of (file_table, string_table, string_cache, string_table_entries) \<Rightarrow>
        (let rel_path = replace_cp 47 92 (fi_rel_path file_info);
             dir_name = fst (os_path_split h rel_path);
             file_name = snd (os_path_split h rel_path)
         in case add_string_to_table (ucd_upper h) string_table string_cache dir_name of
              Inl e \<Rightarrow> Inl e
            | Inr (dir_name_offset, string_table1, string_cache1) \<Rightarrow>
                (case add_string_to_table (ucd_upper h) string_table1 string_cache1 file_name of
                   Inl e \<Rightarrow> Inl e
                 | Inr (file_name_offset, string_table2, string_cache2) \<Rightarrow>
                     (let entry = \<lparr>pe_file_name_offset = file_name_offset,
                                   pe_dir_name_offset = dir_name_offset,
                                   pe_path = fi_path file_info,
                                   pe_size = fi_size file_info,
                                   pe_start_sector = 0\<rparr>;
                          n1 = (if dir_name \<noteq> [] \<and> int dir_name_offset
                                     = int (length string_table2) - int (length dir_name) - 1
                                then string_table_entries + 1 else string_table_entries);
                          n2 = (if int file_name_offset
                                     = int (length string_table2) - int (length file_name) - 1
                                then n1 + 1 else n1)
                      in Inr (file_table @ [entry], string_table2, string_cache2, n2)))))"

definition build_tables ::
  "host \<Rightarrow> file_info list
     \<Rightarrow> py_error + (pack_entry list \<times> bytes \<times> (str \<rightharpoonup> nat) \<times> int)" where
  "build_tables h file_paths = for_each (add_file h) file_paths ([], [0], Map.empty, 1)"

text \<open>
  The layout: \<^verbatim>\<open>first_sector_offset\<close> and \<^verbatim>\<open>padding\<close>, then the loop that assigns
  \<^verbatim>\<open>start_sector\<close> and leaves \<^verbatim>\<open>current_sector\<close>.
\<close>

definition first_sector_layout :: "nat \<Rightarrow> nat \<Rightarrow> int \<Rightarrow> py_error + (int \<times> int)" where
  "first_sector_layout n_entries string_table_size sector_size =
     (let header_size = 40;
          file_table_size = int n_entries * 16;
          first_sector_offset = header_size + file_table_size + int string_table_size
      in if sector_size = 0 then Inl ZeroDivisionError
         else if first_sector_offset mod sector_size \<noteq> 0 then
           (let padding = sector_size - first_sector_offset mod sector_size
            in Inr (first_sector_offset + padding, padding))
         else Inr (first_sector_offset, 0))"

fun assign_sectors :: "int \<Rightarrow> int \<Rightarrow> pack_entry list \<Rightarrow> pack_entry list \<times> int" where
  "assign_sectors sector_size current_sector [] = ([], current_sector)"
| "assign_sectors sector_size current_sector (entry # rest) =
     (let sectors_needed = (pe_size entry + sector_size - 1) div sector_size;
          r = assign_sectors sector_size (current_sector + sectors_needed) rest
      in (entry\<lparr>pe_start_sector := current_sector\<rparr> # fst r, snd r))"

text \<open>
  Writing the preamble into the freshly truncated output file. The result is what the
  file holds when the \<^verbatim>\<open>with\<close> block is left, and the exception that left it, if any.
\<close>

fun write_entries :: "bytes \<Rightarrow> pack_entry list \<Rightarrow> bytes \<times> py_error option" where
  "write_entries f [] = (f, None)"
| "write_entries f (entry # rest) =
     (case struct_pack_I [int (pe_file_name_offset entry), int (pe_dir_name_offset entry),
                          pe_start_sector entry, pe_size entry] of
        Inl e \<Rightarrow> (f, Some e)
      | Inr entry_data \<Rightarrow> write_entries (f @ entry_data) rest)"

definition write_preamble ::
  "pack_entry list \<Rightarrow> bytes \<Rightarrow> int \<Rightarrow> int \<Rightarrow> int \<Rightarrow> int \<Rightarrow> int \<Rightarrow> int
     \<Rightarrow> bytes \<times> py_error option" where
  "write_preamble file_table string_table string_table_entries sector_size cache_size
       first_sector_offset padding current_sector =
     (case struct_pack_I [int CDFS_MAGIC, int CDFS_VERSION, sector_size, cache_size,
                          first_sector_offset, current_sector, int (length file_table) * 16,
                          int (length file_table), int (length string_table),
                          string_table_entries] of
        Inl e \<Rightarrow> ([], Some e)
      | Inr header \<Rightarrow>
          (case write_entries header file_table of
             (f, Some e) \<Rightarrow> (f, Some e)
           | (f, None) \<Rightarrow>
               (let f1 = f @ string_table;
                    f2 = (if padding > 0 then f1 @ replicate (nat padding) 0 else f1);
                    pos = first_sector_offset + current_sector * sector_size - 1
                in if pos < 0 then (f2, Some OSError)
                   else (write_at f2 (nat pos) [0], None))))"

text \<open>
  \<^verbatim>\<open>process_file_task\<close>: what one worker does to the output file, and what it returns.
  The source returns a triple in both cases, which the caller tells apart by testing
  whether the third component is a path that exists; the outcome is a constructor here.
\<close>

datatype task_result =
    Packed nat int str
  | Failed nat py_error

definition process_file_task ::
  "host \<Rightarrow> nat \<Rightarrow> pack_entry \<Rightarrow> bytes \<Rightarrow> int \<Rightarrow> int \<Rightarrow> bytes \<times> task_result" where
  "process_file_task h idx file_info output_file sector_size first_sector_offset =
     (case read_file h (pe_path file_info) of
        Inl e \<Rightarrow> (output_file, Failed idx e)
      | Inr file_data \<Rightarrow>
          (let file_offset = first_sector_offset + pe_start_sector file_info * sector_size
           in if sector_size = 0 then (output_file, Failed idx ZeroDivisionError)
              else
                (let sector_padding =
                       (sector_size - (int (length file_data) mod sector_size)) mod sector_size
                 in if file_offset < 0 then (output_file, Failed idx OSError)
                    else (write_at output_file (nat file_offset)
                            (file_data @ replicate (nat sector_padding) 0),
                          Packed idx (int (length file_data)) (pe_path file_info)))))"

text \<open>
  The worker pool. The tasks run concurrently in the source; here each task runs to its
  end before the next starts, in the order \<open>schedule\<close> (a list of indices into the file
  table), which is also the order in which \<^verbatim>\<open>as_completed\<close> hands the results over.
\<close>

fun run_pack_tasks ::
  "host \<Rightarrow> pack_entry list \<Rightarrow> int \<Rightarrow> int \<Rightarrow> nat list \<Rightarrow> bytes
     \<Rightarrow> bytes \<times> task_result list" where
  "run_pack_tasks h file_table sector_size first_sector_offset [] output_file =
     (output_file, [])"
| "run_pack_tasks h file_table sector_size first_sector_offset (idx # rest) output_file =
     (let t = process_file_task h idx (file_table ! idx) output_file sector_size
                first_sector_offset;
          r = run_pack_tasks h file_table sector_size first_sector_offset rest (fst t)
      in (fst r, snd t # snd r))"

text \<open>
  The loop over the completed futures: the messages it prints on failed tasks, and the
  exception that leaves it, if any (the progress line of debug mode divides by
  \<^verbatim>\<open>total_size\<close>).
\<close>

fun collect_pack_results ::
  "bool \<Rightarrow> int \<Rightarrow> task_result list \<Rightarrow> int \<Rightarrow> message list \<times> py_error option" where
  "collect_pack_results debug_mode total_size [] processed_size = ([], None)"
| "collect_pack_results debug_mode total_size (Packed idx file_size file_path # rest)
       processed_size =
     (if debug_mode \<and> total_size = 0 then ([], Some ZeroDivisionError)
      else collect_pack_results debug_mode total_size rest (processed_size + file_size))"
| "collect_pack_results debug_mode total_size (Failed idx e # rest) processed_size =
     (let r = collect_pack_results debug_mode total_size rest processed_size
      in (Error_packing_file idx e # fst r, snd r))"

record pack_result =
  pr_archive :: "bytes option"
  pr_outcome :: "py_error + bool"
  pr_log :: "message list"

definition pack_cdfs ::
  "host \<Rightarrow> file_info list \<Rightarrow> int \<Rightarrow> int \<Rightarrow> bool \<Rightarrow> nat list \<Rightarrow> pack_result" where
  "pack_cdfs h file_paths sector_size cache_size debug_mode schedule =
     (case build_tables h file_paths of
        Inl e \<Rightarrow> \<lparr>pr_archive = None, pr_outcome = Inl e, pr_log = []\<rparr>
      | Inr (file_table0, string_table, string_cache, string_table_entries) \<Rightarrow>
          (case first_sector_layout (length file_table0) (length string_table) sector_size of
             Inl e \<Rightarrow> \<lparr>pr_archive = None, pr_outcome = Inl e, pr_log = []\<rparr>
           | Inr (first_sector_offset, padding) \<Rightarrow>
               (let file_table = fst (assign_sectors sector_size 0 file_table0);
                    current_sector = snd (assign_sectors sector_size 0 file_table0)
                in case write_preamble file_table string_table string_table_entries sector_size
                          cache_size first_sector_offset padding current_sector of
                     (f, Some e) \<Rightarrow> \<lparr>pr_archive = Some f, pr_outcome = Inl e, pr_log = []\<rparr>
                   | (f, None) \<Rightarrow>
                       (let total_size = sum_list (map pe_size file_table);
                            done = run_pack_tasks h file_table sector_size first_sector_offset
                                     schedule f;
                            seen = collect_pack_results debug_mode total_size (snd done) 0
                        in \<lparr>pr_archive = Some (fst done),
                            pr_outcome = (case snd seen of Some e \<Rightarrow> Inl e | None \<Rightarrow> Inr True),
                            pr_log = fst seen\<rparr>))))"

subsection \<open>Unpacking\<close>

record header =
  h_magic :: nat
  h_version :: nat
  h_sector_size :: nat
  h_recommended_cache_size :: nat
  h_first_sector_offset :: nat
  h_total_sectors :: nat
  h_file_table_length :: nat
  h_file_table_entries :: nat
  h_string_table_length :: nat
  h_string_table_entries :: nat

text \<open>\<^verbatim>\<open>struct.unpack('<IIIIIIIIII', header_data)\<close> and the ten names it binds.\<close>

definition unpack_header :: "bytes \<Rightarrow> py_error + header" where
  "unpack_header header_data =
     (case struct_unpack_I 10 header_data of
        Inl e \<Rightarrow> Inl e
      | Inr v \<Rightarrow>
          Inr \<lparr>h_magic = v ! 0, h_version = v ! 1, h_sector_size = v ! 2,
               h_recommended_cache_size = v ! 3, h_first_sector_offset = v ! 4,
               h_total_sectors = v ! 5, h_file_table_length = v ! 6,
               h_file_table_entries = v ! 7, h_string_table_length = v ! 8,
               h_string_table_entries = v ! 9\<rparr>)"

record file_entry =
  fe_file_name_offset :: nat
  fe_dir_name_offset :: nat
  fe_start_sector :: nat
  fe_length :: nat

text \<open>
  The loop that reads the file table in \<^verbatim>\<open>unpack_cdfs\<close>: \<open>f\<close> is the archive, \<open>pos\<close> the
  position of the read cursor, \<open>n\<close> the entries still to read. A short read makes
  \<^verbatim>\<open>struct.unpack\<close> raise.
\<close>

fun read_file_table :: "bytes \<Rightarrow> nat \<Rightarrow> nat \<Rightarrow> py_error + file_entry list" where
  "read_file_table f pos 0 = Inr []"
| "read_file_table f pos (Suc n) =
     (case struct_unpack_I 4 (take 16 (drop pos f)) of
        Inl e \<Rightarrow> Inl e
      | Inr v \<Rightarrow>
          (case read_file_table f (pos + 16) n of
             Inl e \<Rightarrow> Inl e
           | Inr rest \<Rightarrow>
               Inr (\<lparr>fe_file_name_offset = v ! 0, fe_dir_name_offset = v ! 1,
                     fe_start_sector = v ! 2, fe_length = v ! 3\<rparr> # rest)))"

text \<open>One element of \<^verbatim>\<open>file_tasks\<close>: the destination path, the offset and the length.\<close>

definition file_task ::
  "host \<Rightarrow> bytes \<Rightarrow> header \<Rightarrow> str \<Rightarrow> file_entry \<Rightarrow> py_error + (str \<times> nat \<times> nat)" where
  "file_task h string_table_data hdr output_dir entry =
     (case unpack_string_from_table string_table_data (fe_file_name_offset entry) of
        Inl e \<Rightarrow> Inl e
      | Inr file_name \<Rightarrow>
          (case unpack_string_from_table string_table_data (fe_dir_name_offset entry) of
             Inl e \<Rightarrow> Inl e
           | Inr dir_name \<Rightarrow>
               (let file_offset = h_first_sector_offset hdr + fe_start_sector entry * h_sector_size hdr;
                    file_length = fe_length entry;
                    file_path = (if dir_name \<noteq> []
                                 then os_path_join h [output_dir, replace_cp 92 47 dir_name, file_name]
                                 else os_path_join h [output_dir, file_name])
                in Inr (file_path, file_offset, file_length))))"

fun file_tasks ::
  "host \<Rightarrow> bytes \<Rightarrow> header \<Rightarrow> str \<Rightarrow> file_entry list \<Rightarrow> py_error + (str \<times> nat \<times> nat) list" where
  "file_tasks h string_table_data hdr output_dir [] = Inr []"
| "file_tasks h string_table_data hdr output_dir (entry # rest) =
     (case file_task h string_table_data hdr output_dir entry of
        Inl e \<Rightarrow> Inl e
      | Inr t \<Rightarrow>
          (case file_tasks h string_table_data hdr output_dir rest of
             Inl e \<Rightarrow> Inl e
           | Inr ts \<Rightarrow> Inr (t # ts)))"

text \<open>
  The copy loop of \<^verbatim>\<open>unpack_file_task\<close>: \<open>pos\<close> is the read cursor in the archive \<open>f\<close>,
  \<open>out\<close> what the output file holds so far.
\<close>

definition buffer_size :: int where
  "buffer_size = 16 * 1024 * 1024"

function copy_chunks :: "bytes \<Rightarrow> nat \<Rightarrow> int \<Rightarrow> bytes \<Rightarrow> bytes" where
  "copy_chunks f pos remaining out =
     (if remaining > 0 then
        (let chunk_size = min remaining buffer_size;
             chunk = take (nat chunk_size) (drop pos f)
         in copy_chunks f (pos + length chunk) (remaining - chunk_size) (out @ chunk))
      else out)"
  by pat_completeness auto
termination
  by (relation "measure (\<lambda>(f, pos, remaining, out). nat remaining)")
    (auto simp: buffer_size_def)

declare copy_chunks.simps [simp del]

text \<open>
  \<^verbatim>\<open>unpack_file_task\<close>: the file it writes (its path and content), or the exception that
  creating the directories or opening the file raised.
\<close>

definition unpack_file_task ::
  "host \<Rightarrow> bytes \<Rightarrow> str \<Rightarrow> nat \<Rightarrow> nat \<Rightarrow> py_error + (str \<times> bytes)" where
  "unpack_file_task h input_file file_path file_offset file_length =
     (case open_error h file_path of
        Some e \<Rightarrow> Inl e
      | None \<Rightarrow> Inr (file_path, copy_chunks input_file file_offset (int file_length) []))"

text \<open>
  The worker pool of \<^verbatim>\<open>unpack_cdfs\<close> and the loop over the completed futures, in the
  order \<open>schedule\<close>: the files written and the messages printed.
\<close>

fun run_unpack_tasks ::
  "host \<Rightarrow> bytes \<Rightarrow> (str \<times> nat \<times> nat) list \<Rightarrow> nat list
     \<Rightarrow> (str \<times> bytes) list \<times> message list" where
  "run_unpack_tasks h input_file tasks [] = ([], [])"
| "run_unpack_tasks h input_file tasks (idx # rest) =
     (let r = run_unpack_tasks h input_file tasks rest
      in case tasks ! idx of (file_path, file_offset, file_length) \<Rightarrow>
           (case unpack_file_task h input_file file_path file_offset file_length of
              Inl exc \<Rightarrow> (fst r, Error_unpacking file_path exc # snd r)
            | Inr w \<Rightarrow> (w # fst r, snd r)))"

record unpack_result =
  ur_outcome :: "py_error + bool"
  ur_written :: "(str \<times> bytes) list"
  ur_log :: "message list"

definition unpack_cdfs :: "host \<Rightarrow> bytes \<Rightarrow> str \<Rightarrow> bool \<Rightarrow> nat list \<Rightarrow> unpack_result" where
  "unpack_cdfs h input_file output_dir debug_mode schedule =
     (case unpack_header (take 40 input_file) of
        Inl e \<Rightarrow> \<lparr>ur_outcome = Inl e, ur_written = [], ur_log = []\<rparr>
      | Inr hdr \<Rightarrow>
          (case ascii_decode (be32 (h_magic hdr)) of
             Inl e \<Rightarrow> \<lparr>ur_outcome = Inl e, ur_written = [], ur_log = []\<rparr>
           | Inr magic_text \<Rightarrow>
               if h_magic hdr \<noteq> CDFS_MAGIC
               then \<lparr>ur_outcome = Inr False, ur_written = [],
                     ur_log = [Error_invalid_format (h_magic hdr)]\<rparr>
               else
                 (case read_file_table input_file 40 (h_file_table_entries hdr) of
                    Inl e \<Rightarrow> \<lparr>ur_outcome = Inl e, ur_written = [], ur_log = []\<rparr>
                  | Inr file_table \<Rightarrow>
                      (let string_table_data =
                             take (h_string_table_length hdr)
                               (drop (40 + 16 * h_file_table_entries hdr) input_file)
                       in case file_tasks h string_table_data hdr output_dir file_table of
                            Inl e \<Rightarrow> \<lparr>ur_outcome = Inl e, ur_written = [], ur_log = []\<rparr>
                          | Inr tasks \<Rightarrow>
                              (let r = run_unpack_tasks h input_file tasks schedule
                               in \<lparr>ur_outcome = Inr True, ur_written = fst r,
                                   ur_log = snd r\<rparr>)))))"

text \<open>
  What the destination holds after the writes: a later write to a path replaces an
  earlier one.
\<close>

fun files_after :: "(str \<times> bytes) list \<Rightarrow> (str \<rightharpoonup> bytes) \<Rightarrow> (str \<rightharpoonup> bytes)" where
  "files_after [] fs = fs"
| "files_after ((file_path, content) # rest) fs = files_after rest (fs(file_path \<mapsto> content))"

subsection \<open>Verifying\<close>

text \<open>
  The loop of \<^verbatim>\<open>verify_cdfs\<close> that reads the file table; \<open>i\<close> is the loop index, \<open>n\<close>
  the entries still to read. A short read ends the verification.
\<close>

fun verify_read_table :: "bytes \<Rightarrow> nat \<Rightarrow> nat \<Rightarrow> nat \<Rightarrow> message + file_entry list" where
  "verify_read_table f pos i 0 = Inr []"
| "verify_read_table f pos i (Suc n) =
     (let entry_data = take 16 (drop pos f)
      in if length entry_data < 16 then Inl (Error_truncated_file_table i)
         else
           (case struct_unpack_I 4 entry_data of
              Inl e \<Rightarrow> Inl (Error_during_verification e)
            | Inr v \<Rightarrow>
                (case verify_read_table f (pos + 16) (i + 1) n of
                   Inl m \<Rightarrow> Inl m
                 | Inr rest \<Rightarrow>
                     Inr (\<lparr>fe_file_name_offset = v ! 0, fe_dir_name_offset = v ! 1,
                           fe_start_sector = v ! 2, fe_length = v ! 3\<rparr> # rest))))"

text \<open>The checks of one entry, in the order of the source; \<open>None\<close> when all pass.\<close>

definition verify_entry :: "bytes \<Rightarrow> header \<Rightarrow> nat \<Rightarrow> nat \<Rightarrow> file_entry \<Rightarrow> message option" where
  "verify_entry string_table_data hdr file_size idx entry =
     (let file_offset = h_first_sector_offset hdr + fe_start_sector entry * h_sector_size hdr;
          file_end = file_offset + fe_length entry
      in if file_end > file_size then Some (Error_entry_beyond_end idx)
         else if fe_file_name_offset entry \<ge> h_string_table_length hdr
           then Some (Error_filename_offset idx)
         else if fe_dir_name_offset entry \<ge> h_string_table_length hdr
           then Some (Error_dirname_offset idx)
         else
           (case unpack_string_from_table string_table_data (fe_file_name_offset entry) of
              Inl e \<Rightarrow> Some (Error_string_references idx)
            | Inr file_name \<Rightarrow>
                (case unpack_string_from_table string_table_data (fe_dir_name_offset entry) of
                   Inl e \<Rightarrow> Some (Error_string_references idx)
                 | Inr dir_name \<Rightarrow> None)))"

fun verify_entries :: "bytes \<Rightarrow> header \<Rightarrow> nat \<Rightarrow> nat \<Rightarrow> file_entry list \<Rightarrow> message option" where
  "verify_entries string_table_data hdr file_size idx [] = None"
| "verify_entries string_table_data hdr file_size idx (entry # rest) =
     (case verify_entry string_table_data hdr file_size idx entry of
        Some m \<Rightarrow> Some m
      | None \<Rightarrow> verify_entries string_table_data hdr file_size (idx + 1) rest)"

text \<open>\<^verbatim>\<open>verify_cdfs\<close>: the value returned and the errors and warnings printed.\<close>

definition verify_cdfs :: "bytes \<Rightarrow> bool \<times> message list" where
  "verify_cdfs input_file =
     (let header_data = take 40 input_file
      in if length header_data < 40 then (False, [Error_too_small])
         else
           (case unpack_header header_data of
              Inl e \<Rightarrow> (False, [Error_during_verification e])
            | Inr hdr \<Rightarrow>
                if h_magic hdr \<noteq> CDFS_MAGIC then (False, [Error_invalid_format (h_magic hdr)])
                else
                  (let warn = (if h_version hdr \<noteq> CDFS_VERSION
                               then [Warning_version_mismatch (h_version hdr)] else []);
                       file_size = length input_file
                   in if h_first_sector_offset hdr > file_size
                      then (False, warn @ [Error_first_sector_offset (h_first_sector_offset hdr)
                                             file_size])
                      else if h_file_table_entries hdr * 16 \<noteq> h_file_table_length hdr
                      then (False, warn @ [Error_file_table_length (h_file_table_entries hdr * 16)
                                             (h_file_table_length hdr)])
                      else
                        (case verify_read_table input_file 40 0 (h_file_table_entries hdr) of
                           Inl m \<Rightarrow> (False, warn @ [m])
                         | Inr file_table \<Rightarrow>
                             (let string_table_data =
                                    take (h_string_table_length hdr)
                                      (drop (40 + 16 * h_file_table_entries hdr) input_file)
                              in if length string_table_data < h_string_table_length hdr
                                 then (False, warn @ [Error_truncated_string_table])
                                 else
                                   (case verify_entries string_table_data hdr file_size 0
                                           file_table of
                                      Some m \<Rightarrow> (False, warn @ [m])
                                    | None \<Rightarrow> (True, warn)))))))"

subsection \<open>A POSIX host for the examples\<close>

definition posix_split :: "str \<Rightarrow> str \<times> str" where
  "posix_split p =
     (let tail = rev (takeWhile (\<lambda>c. c \<noteq> 47) (rev p));
          head = take (length p - length tail) p
      in (if head \<noteq> [] \<and> \<not> list_all (\<lambda>c. c = 47) head
          then rev (dropWhile (\<lambda>c. c = 47) (rev head)) else head, tail))"

fun posix_join_from :: "str \<Rightarrow> str list \<Rightarrow> str" where
  "posix_join_from path [] = path"
| "posix_join_from path (b # rest) =
     posix_join_from
       (if b \<noteq> [] \<and> hd b = 47 then b
        else if path = [] \<or> last path = 47 then path @ b
        else path @ [47] @ b) rest"

definition posix_join :: "str list \<Rightarrow> str" where
  "posix_join parts = (case parts of [] \<Rightarrow> [] | a # rest \<Rightarrow> posix_join_from a rest)"

definition posix_host :: "(str \<Rightarrow> py_error + bytes) \<Rightarrow> host" where
  "posix_host rd =
     \<lparr>ucd_upper = (\<lambda>c. [c]), os_path_split = posix_split, os_path_join = posix_join,
      read_file = rd, open_error = (\<lambda>p. None)\<rparr>"

text \<open>An ASCII string literal as a Python \<^verbatim>\<open>str\<close>.\<close>

definition ascii :: "string \<Rightarrow> str" where
  "ascii s = map of_char s"

subsection \<open>Notions used in the statements\<close>

text \<open>
  An offset begins an entry of a string table when it is 0 or the byte before it is a
  null byte. An entry at an offset holds given bytes when they stand there, free of
  null bytes, followed by a null byte inside the table.
\<close>

definition entry_start :: "bytes \<Rightarrow> nat \<Rightarrow> bool" where
  "entry_start t p = (p = 0 \<or> (p \<le> length t \<and> t ! (p - 1) = 0))"

definition entry_at :: "bytes \<Rightarrow> nat \<Rightarrow> bytes \<Rightarrow> bool" where
  "entry_at t off enc =
     (entry_start t off \<and> off + length enc < length t
      \<and> take (length enc) (drop off t) = enc \<and> t ! (off + length enc) = 0 \<and> 0 \<notin> set enc)"

text \<open>
  The offsets at which the scan of \<^verbatim>\<open>add_string_to_table\<close> runs its comparison: the values
  of \<open>index\<close> for which the loop body is entered, in order.
\<close>

function add_string_scan_trace :: "bytes \<Rightarrow> bytes \<Rightarrow> nat \<Rightarrow> nat \<Rightarrow> nat list" where
  "add_string_scan_trace string_table encoded n index =
     (if index + n < length string_table then
        index #
        (if take n (drop index string_table) = encoded \<and> string_table ! (index + n) = 0
         then []
         else add_string_scan_trace string_table encoded n
                (index + length (takeWhile (\<lambda>b. b \<noteq> 0) (drop index string_table)) + 1))
      else [])"
  by pat_completeness auto
termination
  by (relation "measure (\<lambda>(string_table, encoded, n, index). length string_table - index)") auto

declare add_string_scan_trace.simps [simp del]

text \<open>A sequence of calls of \<^verbatim>\<open>add_string_to_table\<close> on one table and one cache.\<close>

fun intern_all ::
  "(codepoint \<Rightarrow> str) \<Rightarrow> str list \<Rightarrow> bytes \<Rightarrow> (str \<rightharpoonup> nat)
     \<Rightarrow> py_error + (nat list \<times> bytes \<times> (str \<rightharpoonup> nat))" where
  "intern_all ucd [] string_table string_cache = Inr ([], string_table, string_cache)"
| "intern_all ucd (s # ss) string_table string_cache =
     (case add_string_to_table ucd string_table string_cache s of
        Inl e \<Rightarrow> Inl e
      | Inr (off, string_table1, string_cache1) \<Rightarrow>
          (case intern_all ucd ss string_table1 string_cache1 of
             Inl e \<Rightarrow> Inl e
           | Inr (offs, string_table2, string_cache2) \<Rightarrow>
               Inr (off # offs, string_table2, string_cache2)))"

text \<open>
  The cache agrees with the table: every cached string is an entry of the table at its
  cached offset, and the table, when not empty, ends with a null byte.
\<close>

definition table_inv :: "bytes \<Rightarrow> (str \<rightharpoonup> nat) \<Rightarrow> bool" where
  "table_inv t c =
     ((t = [] \<or> last t = 0)
      \<and> (\<forall>s off. c s = Some off \<longrightarrow> (\<exists>enc. utf8_encode s = Inr enc \<and> entry_at t off enc)))"


section \<open>Properties of the library model\<close>

subsection \<open>UTF-8: decoding inverts encoding, and conversely\<close>

lemma unat_byte_of: "n < 256 \<Longrightarrow> unat (byte_of n) = n"
  by (simp add: byte_of_def unat_of_nat)

lemma byte_of_unat: "byte_of (unat b) = b"
  by (simp add: byte_of_def)

lemma utf8_decode_Nil: "utf8_decode [] = Inr []"
  by (simp add: utf8_decode.simps)

lemma utf8_decode_Cons:
  "utf8_decode (b # bs) =
     (case decode_one (b # bs) of
        None \<Rightarrow> Inl UnicodeDecodeError
      | Some (c, k) \<Rightarrow>
          (case utf8_decode (drop k bs) of Inl e \<Rightarrow> Inl e | Inr s \<Rightarrow> Inr (c # s)))"
  by (subst utf8_decode.simps) (simp split: option.split)

lemma split3_aux: "q = d * 64 + m \<Longrightarrow> c = q * 64 + r \<Longrightarrow> d * 4096 + m * 64 + r = (c::nat)"
  by simp

lemma split3: "c div 4096 * 4096 + c div 64 mod 64 * 64 + c mod 64 = (c::nat)"
proof -
  have a: "c div 4096 = c div 64 div 64"
    using div_mult2_eq[of c 64 64] by simp
  show ?thesis
    unfolding a by (rule split3_aux[of "c div 64"]) simp_all
qed

lemma split4_aux:
  "q = d * 64 + m \<Longrightarrow> q * 4096 + r = (c::nat) \<Longrightarrow> d * 262144 + m * 4096 + r = (c::nat)"
  by simp

lemma split4:
  "c div 262144 * 262144 + c div 4096 mod 64 * 4096 + c div 64 mod 64 * 64 + c mod 64 = (c::nat)"
proof -
  have a: "c div 262144 = c div 4096 div 64"
    using div_mult2_eq[of c 4096 64] by simp
  have b: "c div 4096 * 4096 + (c div 64 mod 64 * 64 + c mod 64) = c"
    using split3[of c] by simp
  have "c div 262144 * 262144 + c div 4096 mod 64 * 4096 + (c div 64 mod 64 * 64 + c mod 64) = c"
    unfolding a by (rule split4_aux[of "c div 4096", OF _ b]) simp
  then show ?thesis by simp
qed

lemma decode_one_1: "unat b0 < 0x80 \<Longrightarrow> decode_one (b0 # r) = Some (unat b0, 0)"
  by (simp add: decode_one_def)

lemma decode_one_2:
  assumes "unat b0 = 0xC0 + d" "unat b1 = 0x80 + m" "d < 32" "m < 64" "c = d * 64 + m" "0x80 \<le> c"
  shows "decode_one (b0 # b1 # r) = Some (c, 1)"
  using assms by (simp add: decode_one_def is_cont_def cont_bits_def Let_def)

lemma decode_one_3:
  assumes "unat b0 = 0xE0 + d" "unat b1 = 0x80 + m1" "unat b2 = 0x80 + m2"
    "d < 16" "m1 < 64" "m2 < 64"
    "c = d * 4096 + m1 * 64 + m2" "0x800 \<le> c" "\<not> (0xD800 \<le> c \<and> c < 0xE000)"
  shows "decode_one (b0 # b1 # b2 # r) = Some (c, 2)"
  using assms by (simp add: decode_one_def is_cont_def cont_bits_def Let_def)

lemma decode_one_4:
  assumes "unat b0 = 0xF0 + d" "unat b1 = 0x80 + m1" "unat b2 = 0x80 + m2" "unat b3 = 0x80 + m3"
    "d < 8" "m1 < 64" "m2 < 64" "m3 < 64"
    "c = d * 262144 + m1 * 4096 + m2 * 64 + m3" "0x10000 \<le> c" "c < 0x110000"
  shows "decode_one (b0 # b1 # b2 # b3 # r) = Some (c, 3)"
  using assms by (simp add: decode_one_def is_cont_def cont_bits_def Let_def)

lemma div_bound: "c < k * n \<Longrightarrow> c div n < (k::nat)"
  by (simp add: less_mult_imp_div_less)

lemma decode_one_encode_cp:
  assumes "encode_cp c = Inr cs"
  shows "decode_one (cs @ r) = Some (c, length cs - 1) \<and> cs \<noteq> []"
proof -
  consider (1) "c < 0x80" | (2) "0x80 \<le> c" "c < 0x800"
    | (3) "0x800 \<le> c" "c < 0x10000" "\<not> (0xD800 \<le> c \<and> c < 0xE000)"
    | (4) "0x10000 \<le> c" "c < 0x110000"
    using assms
    by (cases "c < 0x80"; cases "c < 0x800"; cases "c < 0x10000"; cases "c < 0x110000")
      (simp_all add: encode_cp_def split: if_splits)
  then show ?thesis
  proof cases
    case 1
    then have cs: "cs = [byte_of c]" using assms by (simp add: encode_cp_def)
    have "unat (byte_of c) = c" using 1 by (intro unat_byte_of) simp
    then show ?thesis using 1 decode_one_1[of "byte_of c" r] by (simp add: cs)
  next
    case 2
    then have cs: "cs = [byte_of (0xC0 + c div 64), byte_of (0x80 + c mod 64)]"
      using assms by (simp add: encode_cp_def)
    have d: "c div 64 < 32" using 2 by (intro div_bound) simp
    have m: "c mod 64 < 64" by simp
    have u0: "unat (byte_of (0xC0 + c div 64)) = 0xC0 + c div 64"
      using d by (intro unat_byte_of) simp
    have u1: "unat (byte_of (0x80 + c mod 64)) = 0x80 + c mod 64"
      using m by (intro unat_byte_of) simp
    have "decode_one (byte_of (0xC0 + c div 64) # byte_of (0x80 + c mod 64) # r) = Some (c, 1)"
      by (rule decode_one_2[OF u0 u1 d m _ 2(1)]) simp
    then show ?thesis by (simp add: cs)
  next
    case 3
    then have cs: "cs = [byte_of (0xE0 + c div 4096), byte_of (0x80 + c div 64 mod 64),
                         byte_of (0x80 + c mod 64)]"
      using assms by (auto simp: encode_cp_def)
    have d: "c div 4096 < 16" using 3 by (intro div_bound) simp
    have m1: "c div 64 mod 64 < 64" and m2: "c mod 64 < 64" by simp_all
    have u0: "unat (byte_of (0xE0 + c div 4096)) = 0xE0 + c div 4096"
      using d by (intro unat_byte_of) simp
    have u1: "unat (byte_of (0x80 + c div 64 mod 64)) = 0x80 + c div 64 mod 64"
      using m1 by (intro unat_byte_of) simp
    have u2: "unat (byte_of (0x80 + c mod 64)) = 0x80 + c mod 64"
      using m2 by (intro unat_byte_of) simp
    have "decode_one (byte_of (0xE0 + c div 4096) # byte_of (0x80 + c div 64 mod 64)
            # byte_of (0x80 + c mod 64) # r) = Some (c, 2)"
      by (rule decode_one_3[OF u0 u1 u2 d m1 m2 split3[symmetric] 3(1) 3(3)])
    then show ?thesis by (simp add: cs)
  next
    case 4
    then have cs: "cs = [byte_of (0xF0 + c div 262144), byte_of (0x80 + c div 4096 mod 64),
             byte_of (0x80 + c div 64 mod 64), byte_of (0x80 + c mod 64)]"
      using assms by (simp add: encode_cp_def)
    have d: "c div 262144 < 8" using 4 by (intro div_bound) simp
    have m1: "c div 4096 mod 64 < 64" and m2: "c div 64 mod 64 < 64" and m3: "c mod 64 < 64"
      by simp_all
    have u0: "unat (byte_of (0xF0 + c div 262144)) = 0xF0 + c div 262144"
      using d by (intro unat_byte_of) simp
    have u1: "unat (byte_of (0x80 + c div 4096 mod 64)) = 0x80 + c div 4096 mod 64"
      using m1 by (intro unat_byte_of) simp
    have u2: "unat (byte_of (0x80 + c div 64 mod 64)) = 0x80 + c div 64 mod 64"
      using m2 by (intro unat_byte_of) simp
    have u3: "unat (byte_of (0x80 + c mod 64)) = 0x80 + c mod 64"
      using m3 by (intro unat_byte_of) simp
    have "decode_one (byte_of (0xF0 + c div 262144) # byte_of (0x80 + c div 4096 mod 64) #
             byte_of (0x80 + c div 64 mod 64) # byte_of (0x80 + c mod 64) # r) = Some (c, 3)"
      by (rule decode_one_4[OF u0 u1 u2 u3 d m1 m2 m3 split4[symmetric] 4(1) 4(2)])
    then show ?thesis by (simp add: cs)
  qed
qed

lemma utf8_decode_encode: "utf8_encode s = Inr bs \<Longrightarrow> utf8_decode bs = Inr s"
proof (induction s arbitrary: bs)
  case Nil
  then show ?case by (simp add: utf8_decode_Nil)
next
  case (Cons c s)
  from Cons.prems obtain cs r where cs: "encode_cp c = Inr cs" and r: "utf8_encode s = Inr r"
    and bs: "bs = cs @ r"
    by (auto split: sum.splits)
  from decode_one_encode_cp[OF cs, of r] have d: "decode_one (cs @ r) = Some (c, length cs - 1)"
    and ne: "cs \<noteq> []" by auto
  from ne obtain b cs' where cs': "cs = b # cs'" by (cases cs) auto
  have "utf8_decode r = Inr s" using Cons.IH[OF r] .
  then show ?case using d unfolding bs cs'
    by (simp add: utf8_decode_Cons)
qed

lemma dm2: "m < 64 \<Longrightarrow> (d * 64 + m) div 64 = d \<and> (d * 64 + m) mod 64 = (m::nat)"
  by simp

lemma dm3:
  assumes "m1 < 64" "m2 < 64" "c = d * 4096 + m1 * 64 + (m2::nat)"
  shows "c div 4096 = d \<and> c div 64 mod 64 = m1 \<and> c mod 64 = m2"
proof -
  have c: "c = (d * 64 + m1) * 64 + m2" using assms(3) by simp
  have a: "c div 64 = d * 64 + m1" and b: "c mod 64 = m2"
    unfolding c using dm2[OF assms(2), of "d * 64 + m1"] by blast+
  have e: "c div 4096 = c div 64 div 64"
    using div_mult2_eq[of c 64 64] by simp
  show ?thesis unfolding e a using dm2[OF assms(1), of d] b by simp
qed

lemma dm4:
  assumes "m1 < 64" "m2 < 64" "m3 < 64" "c = d * 262144 + m1 * 4096 + m2 * 64 + (m3::nat)"
  shows "c div 262144 = d \<and> c div 4096 mod 64 = m1 \<and> c div 64 mod 64 = m2 \<and> c mod 64 = m3"
proof -
  have c: "c = (d * 64 + m1) * 4096 + m2 * 64 + m3" using assms(4) by simp
  from dm3[OF assms(2) assms(3) c]
  have a: "c div 4096 = d * 64 + m1" and b: "c div 64 mod 64 = m2" "c mod 64 = m3" by blast+
  have e: "c div 262144 = c div 4096 div 64"
    using div_mult2_eq[of c 4096 64] by simp
  show ?thesis unfolding e a using dm2[OF assms(1), of d] b by simp
qed

lemma encode_cp_1: "c < 0x80 \<Longrightarrow> encode_cp c = Inr [byte_of c]"
  by (simp add: encode_cp_def)

lemma encode_cp_2:
  assumes "c = d * 64 + m" "d < 32" "m < 64" "0x80 \<le> c"
  shows "encode_cp c = Inr [byte_of (0xC0 + d), byte_of (0x80 + m)]"
proof -
  have "c < 0x800" using assms by simp
  moreover have "c div 64 = d" "c mod 64 = m" using dm2[OF assms(3), of d] assms(1) by simp_all
  ultimately show ?thesis using assms(4) by (simp add: encode_cp_def)
qed

lemma encode_cp_3:
  assumes "c = d * 4096 + m1 * 64 + m2" "d < 16" "m1 < 64" "m2 < 64" "0x800 \<le> c"
    "\<not> (0xD800 \<le> c \<and> c < 0xE000)"
  shows "encode_cp c = Inr [byte_of (0xE0 + d), byte_of (0x80 + m1), byte_of (0x80 + m2)]"
proof -
  have "c < 0x10000" using assms(1-4) by simp
  moreover have "c div 4096 = d" "c div 64 mod 64 = m1" "c mod 64 = m2"
    using dm3[OF assms(3) assms(4) assms(1)] by simp_all
  ultimately show ?thesis using assms(5,6) by (auto simp: encode_cp_def)
qed

lemma encode_cp_4:
  assumes "c = d * 262144 + m1 * 4096 + m2 * 64 + m3" "m1 < 64" "m2 < 64" "m3 < 64"
    "0x10000 \<le> c" "c < 0x110000"
  shows "encode_cp c =
    Inr [byte_of (0xF0 + d), byte_of (0x80 + m1), byte_of (0x80 + m2), byte_of (0x80 + m3)]"
proof -
  have "c div 262144 = d" "c div 4096 mod 64 = m1" "c div 64 mod 64 = m2" "c mod 64 = m3"
    using dm4[OF assms(2) assms(3) assms(4) assms(1)] by simp_all
  then show ?thesis using assms(5,6) by (auto simp: encode_cp_def)
qed

lemma cont_byte:
  assumes "is_cont b"
  shows "byte_of (0x80 + cont_bits b) = b \<and> cont_bits b < 64"
proof -
  have a: "0x80 \<le> unat b" "unat b < 0xC0" using assms by (simp_all add: is_cont_def)
  have "0x80 + cont_bits b = unat b" using a by (simp add: cont_bits_def)
  moreover have "cont_bits b < 64" using a unfolding cont_bits_def by linarith
  ultimately show ?thesis using byte_of_unat[of b] by simp
qed

lemma lead_byte: "k \<le> unat b \<Longrightarrow> byte_of (k + (unat b - k)) = b"
  using byte_of_unat[of b] by simp

lemma encode_cp_decode_one:
  assumes "decode_one bs = Some (c, k)" "bs \<noteq> []"
  shows "Suc k \<le> length bs \<and> encode_cp c = Inr (take (Suc k) bs)"
proof -
  obtain b0 r where bs: "bs = b0 # r" using assms(2) by (cases bs) auto
  consider (1) "unat b0 < 0x80" | (2) "0xC0 \<le> unat b0" "unat b0 < 0xE0"
    | (3) "0xE0 \<le> unat b0" "unat b0 < 0xF0" | (4) "0xF0 \<le> unat b0" "unat b0 < 0xF8"
    using assms(1) unfolding bs by (auto simp: decode_one_def Let_def split: if_splits)
  then show ?thesis
  proof cases
    case 1
    then have "c = unat b0" "k = 0" using assms(1) unfolding bs by (simp_all add: decode_one_def)
    then show ?thesis using 1 encode_cp_1[of c] byte_of_unat[of b0] by (simp add: bs)
  next
    case 2
    from assms(1) 2 obtain b1 r' where r: "r = b1 # r'" and c1: "is_cont b1"
      and c: "c = (unat b0 - 0xC0) * 64 + cont_bits b1" and k: "k = 1" and lo: "0x80 \<le> c"
      unfolding bs by (cases r) (auto simp: decode_one_def Let_def split: if_splits)
    have d: "unat b0 - 0xC0 < 32" using 2 by simp
    from encode_cp_2[OF c d _ lo] cont_byte[OF c1] lead_byte[OF 2(1)]
    show ?thesis by (simp add: bs r k)
  next
    case 3
    from assms(1) 3 obtain b1 b2 r' where r: "r = b1 # b2 # r'"
      and c1: "is_cont b1" and c2: "is_cont b2"
      and c: "c = (unat b0 - 0xE0) * 4096 + cont_bits b1 * 64 + cont_bits b2" and k: "k = 2"
      and lo: "0x800 \<le> c" and sur: "\<not> (0xD800 \<le> c \<and> c < 0xE000)"
      unfolding bs by (cases r; cases "tl r") (auto simp: decode_one_def Let_def split: if_splits)
    have d: "unat b0 - 0xE0 < 16" using 3 by simp
    from encode_cp_3[OF c d _ _ lo sur] cont_byte[OF c1] cont_byte[OF c2] lead_byte[OF 3(1)]
    show ?thesis by (simp add: bs r k)
  next
    case 4
    from assms(1) 4 obtain b1 b2 b3 r' where r: "r = b1 # b2 # b3 # r'"
      and c1: "is_cont b1" and c2: "is_cont b2" and c3: "is_cont b3"
      and c: "c = (unat b0 - 0xF0) * 262144 + cont_bits b1 * 4096 + cont_bits b2 * 64
                  + cont_bits b3"
      and k: "k = 3" and lo: "0x10000 \<le> c" and hi: "c < 0x110000"
      unfolding bs by (cases r; cases "tl r"; cases "tl (tl r)")
        (auto simp: decode_one_def Let_def split: if_splits)
    from encode_cp_4[OF c _ _ _ lo hi] cont_byte[OF c1] cont_byte[OF c2] cont_byte[OF c3]
      lead_byte[OF 4(1)]
    show ?thesis by (simp add: bs r k)
  qed
qed

lemma utf8_encode_decode: "utf8_decode bs = Inr s \<Longrightarrow> utf8_encode s = Inr bs"
proof (induction bs arbitrary: s rule: utf8_decode.induct)
  case (1 bs)
  show ?case
  proof (cases "bs = []")
    case True
    then show ?thesis using 1(2) by (simp add: utf8_decode_Nil)
  next
    case False
    from 1(2) False obtain c k s' where d: "decode_one bs = Some (c, k)"
      and r: "utf8_decode (drop (Suc k) bs) = Inr s'" and s: "s = c # s'"
      by (subst (asm) utf8_decode.simps) (auto split: option.splits sum.splits)
    from encode_cp_decode_one[OF d False]
    have e: "encode_cp c = Inr (take (Suc k) bs)" by simp
    have "utf8_encode s' = Inr (drop (Suc k) bs)"
      using 1(1)[OF False d refl r] .
    then show ?thesis using e by (simp add: s)
  qed
qed

lemma utf8_decode_error: "utf8_decode bs = Inl e \<Longrightarrow> e = UnicodeDecodeError"
proof (induction bs rule: utf8_decode.induct)
  case (1 bs)
  show ?case
  proof (cases "bs = []")
    case True
    then show ?thesis using 1(2) by (simp add: utf8_decode_Nil)
  next
    case False
    show ?thesis
    proof (cases "decode_one bs")
      case None
      then show ?thesis using 1(2) False by (subst (asm) utf8_decode.simps) simp
    next
      case (Some p)
      obtain c k where p: "p = (c, k)" by (cases p)
      show ?thesis using 1(1)[OF False Some[unfolded p] refl] 1(2) False Some p
        by (subst (asm) (2) utf8_decode.simps) (auto split: sum.splits)
    qed
  qed
qed

lemma utf8_decode_iff: "(utf8_decode bs = Inr s) = (utf8_encode s = Inr bs)"
  using utf8_decode_encode utf8_encode_decode by blast

subsection \<open>The string table lookup\<close>

lemma unpack_string_end_eq:
  "unpack_string_end string_table e =
     e + length (takeWhile (\<lambda>b. b \<noteq> 0) (drop e string_table))"
proof (induction string_table e rule: unpack_string_end.induct)
  case (1 string_table e)
  show ?case
  proof (cases "e < length string_table \<and> string_table ! e \<noteq> 0")
    case True
    then have d: "drop e string_table = string_table ! e # drop (Suc e) string_table"
      by (simp add: Cons_nth_drop_Suc)
    show ?thesis using True 1 d
      by (subst unpack_string_end.simps) simp
  next
    case False
    then have "takeWhile (\<lambda>b. b \<noteq> 0) (drop e string_table) = []"
      by (cases "e < length string_table") (auto simp: takeWhile_eq_Nil_iff hd_drop_conv_nth)
    then show ?thesis using False by (subst unpack_string_end.simps) auto
  qed
qed

lemma unpack_string_from_table_eq:
  "unpack_string_from_table string_table offset =
     utf8_decode (takeWhile (\<lambda>b. b \<noteq> 0) (drop offset string_table))"
proof -
  have "take (length (takeWhile (\<lambda>b. b \<noteq> 0) (drop offset string_table)))
          (drop offset string_table) = takeWhile (\<lambda>b. b \<noteq> 0) (drop offset string_table)"
    by (metis takeWhile_eq_take)
  then show ?thesis
    by (simp add: unpack_string_from_table_def unpack_string_end_eq)
qed

section \<open>The claims\<close>

text \<open>
  Claim C5, as stated: the lookup fails whenever the offset is out of the table's bounds.
  It does not: at offset 5 of a one-byte table the loop does not run, the slice is empty
  and the result is the empty string.
\<close>

theorem C5_out_of_bounds_counterexample:
  "length [0 :: byte] \<le> 5 \<and> unpack_string_from_table [0] 5 = Inr []"
  by (simp add: unpack_string_from_table_eq utf8_decode_Nil)

text \<open>
  Claim C5, amended: \<^verbatim>\<open>unpack_string_from_table\<close> returns the string whose UTF-8 encoding
  is the bytes from the offset up to the next null byte (or up to the end of the table
  when no null byte follows); it raises \<^verbatim>\<open>UnicodeDecodeError\<close>, and nothing else, exactly
  when those bytes are the encoding of no string; an offset at or past the end of the
  table is not an error, the result is the empty string.
\<close>

theorem C5_lookup:
  "(unpack_string_from_table string_table offset = Inr s)
     = (utf8_encode s = Inr (takeWhile (\<lambda>b. b \<noteq> 0) (drop offset string_table)))
   \<and> (unpack_string_from_table string_table offset = Inl e)
     = (e = UnicodeDecodeError
        \<and> (\<nexists>s. utf8_encode s = Inr (takeWhile (\<lambda>b. b \<noteq> 0) (drop offset string_table))))
   \<and> unpack_string_from_table string_table (length string_table + k) = Inr []"
proof (intro conjI)
  show "(unpack_string_from_table string_table offset = Inr s)
     = (utf8_encode s = Inr (takeWhile (\<lambda>b. b \<noteq> 0) (drop offset string_table)))"
    by (simp add: unpack_string_from_table_eq utf8_decode_iff)
next
  let ?bs = "takeWhile (\<lambda>b. b \<noteq> 0) (drop offset string_table)"
  show "(unpack_string_from_table string_table offset = Inl e)
     = (e = UnicodeDecodeError \<and> (\<nexists>s. utf8_encode s = Inr ?bs))"
  proof (cases "utf8_decode ?bs")
    case (Inl e')
    then have "e' = UnicodeDecodeError" by (rule utf8_decode_error)
    moreover have "\<nexists>s. utf8_encode s = Inr ?bs"
      using Inl utf8_decode_encode by fastforce
    ultimately show ?thesis using Inl by (auto simp: unpack_string_from_table_eq)
  next
    case (Inr s')
    then have "utf8_encode s' = Inr ?bs" by (rule utf8_encode_decode)
    then show ?thesis using Inr by (auto simp: unpack_string_from_table_eq)
  qed
next
  show "unpack_string_from_table string_table (length string_table + k) = Inr []"
    by (simp add: unpack_string_from_table_eq utf8_decode_Nil)
qed

subsection \<open>Interning\<close>

lemma encode_cp_null_free:
  assumes "encode_cp c = Inr cs" "c \<noteq> 0"
  shows "0 \<notin> set cs"
proof -
  have nz: "\<And>n. 0 < n \<Longrightarrow> n < 256 \<Longrightarrow> byte_of n \<noteq> 0"
  proof
    fix n :: nat
    assume "0 < n" "n < 256" "byte_of n = 0"
    then have "unat (byte_of n) = 0" by simp
    then show False using unat_byte_of[of n] \<open>0 < n\<close> \<open>n < 256\<close> by simp
  qed
  have m: "\<And>x. 0x80 + x mod 64 < (256::nat)" by simp
  consider (1) "c < 0x80" | (2) "0x80 \<le> c" "c < 0x800"
    | (3) "0x800 \<le> c" "c < 0x10000" "\<not> (0xD800 \<le> c \<and> c < 0xE000)"
    | (4) "0x10000 \<le> c" "c < 0x110000"
    using assms(1)
    by (cases "c < 0x80"; cases "c < 0x800"; cases "c < 0x10000"; cases "c < 0x110000")
      (simp_all add: encode_cp_def split: if_splits)
  then show ?thesis
  proof cases
    case 1
    then have "cs = [byte_of c]" using assms(1) by (simp add: encode_cp_def)
    then show ?thesis using nz[of c] 1 assms(2) by simp
  next
    case 2
    then have cs: "cs = [byte_of (0xC0 + c div 64), byte_of (0x80 + c mod 64)]"
      using assms(1) by (simp add: encode_cp_def)
    have "c div 64 < 32" using 2 by (intro div_bound) simp
    then have "byte_of (0xC0 + c div 64) \<noteq> 0" by (intro nz) simp_all
    moreover have "byte_of (0x80 + c mod 64) \<noteq> 0" by (intro nz) simp_all
    ultimately show ?thesis by (simp add: cs)
  next
    case 3
    then have cs: "cs = [byte_of (0xE0 + c div 4096), byte_of (0x80 + c div 64 mod 64),
                         byte_of (0x80 + c mod 64)]"
      using assms(1) by (auto simp: encode_cp_def)
    have "c div 4096 < 16" using 3 by (intro div_bound) simp
    then have "byte_of (0xE0 + c div 4096) \<noteq> 0" by (intro nz) simp_all
    moreover have "byte_of (0x80 + c div 64 mod 64) \<noteq> 0" by (intro nz) simp_all
    moreover have "byte_of (0x80 + c mod 64) \<noteq> 0" by (intro nz) simp_all
    ultimately show ?thesis by (simp add: cs)
  next
    case 4
    then have cs: "cs = [byte_of (0xF0 + c div 262144), byte_of (0x80 + c div 4096 mod 64),
             byte_of (0x80 + c div 64 mod 64), byte_of (0x80 + c mod 64)]"
      using assms(1) by (simp add: encode_cp_def)
    have "c div 262144 < 8" using 4 by (intro div_bound) simp
    then have "byte_of (0xF0 + c div 262144) \<noteq> 0" by (intro nz) simp_all
    moreover have "byte_of (0x80 + c div 4096 mod 64) \<noteq> 0" by (intro nz) simp_all
    moreover have "byte_of (0x80 + c div 64 mod 64) \<noteq> 0" by (intro nz) simp_all
    moreover have "byte_of (0x80 + c mod 64) \<noteq> 0" by (intro nz) simp_all
    ultimately show ?thesis by (simp add: cs)
  qed
qed

lemma utf8_encode_null_free: "utf8_encode s = Inr enc \<Longrightarrow> 0 \<notin> set s \<Longrightarrow> 0 \<notin> set enc"
proof (induction s arbitrary: enc)
  case Nil
  then show ?case by simp
next
  case (Cons c s)
  from Cons.prems(1) obtain cs r where cs: "encode_cp c = Inr cs" and r: "utf8_encode s = Inr r"
    and enc: "enc = cs @ r"
    by (auto split: sum.splits)
  have "0 \<notin> set cs" using encode_cp_null_free[OF cs] Cons.prems(2) by simp
  moreover have "0 \<notin> set r" using Cons.IH[OF r] Cons.prems(2) by simp
  ultimately show ?case by (simp add: enc)
qed

lemma py_upper_null_free:
  assumes "\<forall>c. c \<noteq> 0 \<longrightarrow> 0 \<notin> set (ucd c)" "0 \<notin> set s"
  shows "0 \<notin> set (py_upper ucd s)"
proof -
  have "\<And>c. c \<noteq> 0 \<Longrightarrow> 0 \<notin> set (upper_cp ucd c)"
    using assms(1) by (auto simp: upper_cp_def)
  then show ?thesis using assms(2) unfolding py_upper_def by (induction s) auto
qed

lemma entry_at_lookup:
  assumes "entry_at t off enc"
  shows "takeWhile (\<lambda>b. b \<noteq> 0) (drop off t) = enc"
proof -
  from assms have a: "off + length enc < length t" and b: "take (length enc) (drop off t) = enc"
    and c: "t ! (off + length enc) = 0" and d: "0 \<notin> set enc"
    by (simp_all add: entry_at_def)
  have "drop off t = take (length enc) (drop off t) @ drop (length enc) (drop off t)"
    by (simp only: append_take_drop_id)
  also have "drop (length enc) (drop off t) = t ! (off + length enc) # drop (Suc (off + length enc)) t"
    using a by (simp add: Cons_nth_drop_Suc add.commute)
  finally have "drop off t = enc @ 0 # drop (Suc (off + length enc)) t"
    using b c by simp
  moreover have "\<And>x. x \<in> set enc \<Longrightarrow> x \<noteq> 0" using d by auto
  ultimately show ?thesis by (simp add: takeWhile_tail)
qed

lemma entry_start_append: "entry_start t p \<Longrightarrow> entry_start (t @ x) p"
  by (cases "p = 0") (auto simp: entry_start_def nth_append)

lemma entry_at_append: "entry_at t off enc \<Longrightarrow> entry_at (t @ x) off enc"
  by (auto simp: entry_at_def entry_start_append nth_append)

lemma entry_at_appended:
  assumes "t = [] \<or> last t = 0" "0 \<notin> set enc"
  shows "entry_at (t @ enc @ [0]) (length t) enc"
proof -
  have "entry_start (t @ enc @ [0]) (length t)"
  proof (cases "t = []")
    case True
    then show ?thesis by (simp add: entry_start_def)
  next
    case False
    then have "t ! (length t - 1) = 0" using assms(1) by (simp add: last_conv_nth)
    then show ?thesis using False by (simp add: entry_start_def nth_append)
  qed
  then show ?thesis using assms(2) by (simp add: entry_at_def nth_append)
qed

lemma scan_next_entry_start:
  assumes "index < length t"
    and "index + length (takeWhile (\<lambda>b. b \<noteq> 0) (drop index t)) + 1 \<le> length t"
  shows "entry_start t (index + length (takeWhile (\<lambda>b. b \<noteq> 0) (drop index t)) + 1)"
proof -
  let ?k = "length (takeWhile (\<lambda>b. b \<noteq> 0) (drop index t))"
  have k: "?k < length (drop index t)" using assms by simp
  have "\<not> (drop index t ! ?k \<noteq> 0)" by (rule nth_length_takeWhile[OF k])
  then have "t ! (index + ?k) = 0" using assms by simp
  then show ?thesis using assms(2) by (simp add: entry_start_def)
qed

lemma scan_trace_entry_start:
  "entry_start t index \<Longrightarrow> p \<in> set (add_string_scan_trace t enc n index) \<Longrightarrow> entry_start t p"
proof (induction t enc n index rule: add_string_scan_trace.induct)
  case (1 t enc n index)
  let ?next = "index + length (takeWhile (\<lambda>b. b \<noteq> 0) (drop index t)) + 1"
  show ?case
  proof (cases "index + n < length t")
    case False
    then show ?thesis using "1.prems"(2) by (subst (asm) add_string_scan_trace.simps) simp
  next
    case True
    show ?thesis
    proof (cases "p = index")
      case True
      then show ?thesis using "1.prems"(1) by simp
    next
      case False
      with \<open>index + n < length t\<close> "1.prems"(2)
      have nm: "\<not> (take n (drop index t) = enc \<and> t ! (index + n) = 0)"
        and p: "p \<in> set (add_string_scan_trace t enc n ?next)"
        by (subst (asm) add_string_scan_trace.simps; auto split: if_splits)+
      show ?thesis
      proof (cases "?next + n < length t")
        case True
        then have "entry_start t ?next"
          using \<open>index + n < length t\<close> by (intro scan_next_entry_start) simp_all
        then show ?thesis using "1.IH"[OF \<open>index + n < length t\<close> nm _ p] by simp
      next
        case False
        then show ?thesis using p by (subst (asm) add_string_scan_trace.simps) simp
      qed
    qed
  qed
qed

lemma add_string_scan_find:
  "add_string_scan t enc n index =
     List.find (\<lambda>p. take n (drop p t) = enc \<and> t ! (p + n) = 0) (add_string_scan_trace t enc n index)"
proof (induction t enc n index rule: add_string_scan.induct)
  case (1 t enc n index)
  show ?case
  proof (cases "index + n < length t")
    case False
    then show ?thesis
      by (subst add_string_scan.simps, subst add_string_scan_trace.simps) simp
  next
    case True
    show ?thesis
    proof (cases "take n (drop index t) = enc \<and> t ! (index + n) = 0")
      case m: True
      then show ?thesis using True
        by (subst add_string_scan.simps, subst add_string_scan_trace.simps) simp
    next
      case m: False
      show ?thesis using True m "1.IH"[OF True m]
        by (subst add_string_scan.simps, subst add_string_scan_trace.simps) auto
    qed
  qed
qed

lemma add_string_scan_Some:
  assumes "add_string_scan t enc n index = Some i"
  shows "i \<in> set (add_string_scan_trace t enc n index) \<and> i + n < length t
         \<and> take n (drop i t) = enc \<and> t ! (i + n) = 0"
proof -
  from assms have f: "List.find (\<lambda>p. take n (drop p t) = enc \<and> t ! (p + n) = 0)
                        (add_string_scan_trace t enc n index) = Some i"
    by (simp add: add_string_scan_find)
  then have i: "i \<in> set (add_string_scan_trace t enc n index)"
    and m: "take n (drop i t) = enc \<and> t ! (i + n) = 0"
    by (auto simp: find_Some_iff)
  have "\<And>p. p \<in> set (add_string_scan_trace t enc n index) \<Longrightarrow> p + n < length t"
  proof (induction t enc n index rule: add_string_scan_trace.induct)
    case (1 t enc n index)
    show ?case using "1.prems" "1.IH"
      by (subst (asm) add_string_scan_trace.simps) (auto split: if_splits)
  qed
  then show ?thesis using i m by blast
qed

lemma add_string_scan_entry_at:
  assumes "add_string_scan t enc n 0 = Some i" "0 \<notin> set enc"
  shows "entry_at t i enc"
proof -
  from add_string_scan_Some[OF assms(1)]
  have i: "i \<in> set (add_string_scan_trace t enc n 0)" and l: "i + n < length t"
    and m: "take n (drop i t) = enc" and z: "t ! (i + n) = 0" by blast+
  have s: "entry_start t i"
    by (rule scan_trace_entry_start[OF _ i]) (simp add: entry_start_def)
  have "length (take n (drop i t)) = n" using l by simp
  then have n: "length enc = n" using m by simp
  show ?thesis using s l m z assms(2) n by (simp add: entry_at_def)
qed

lemma add_string_to_table_ok:
  assumes inv: "table_inv t c"
    and r: "add_string_to_table ucd t c s0 = Inr (off, t', c')"
    and nz: "0 \<notin> set (py_upper ucd s0)"
  shows "table_inv t' c' \<and> (\<exists>x. t' = t @ x)
         \<and> (\<exists>enc. utf8_encode (py_upper ucd s0) = Inr enc \<and> entry_at t' off enc)"
proof (cases "c (py_upper ucd s0)")
  case (Some i)
  then have "off = i" "t' = t" "c' = c" using r by (simp_all add: add_string_to_table_def Let_def)
  then show ?thesis using inv Some by (auto simp: table_inv_def)
next
  case None
  then obtain enc where enc: "utf8_encode (py_upper ucd s0) = Inr enc"
    using r by (auto simp: add_string_to_table_def Let_def split: sum.splits)
  have z: "0 \<notin> set enc" by (rule utf8_encode_null_free[OF enc nz])
  show ?thesis
  proof (cases "add_string_scan t enc (length (py_upper ucd s0)) 0")
    case (Some i)
    then have e: "off = i" "t' = t" "c' = c(py_upper ucd s0 \<mapsto> i)"
      using r None enc by (auto simp: add_string_to_table_def Let_def)
    have "entry_at t i enc" by (rule add_string_scan_entry_at[OF Some z])
    then show ?thesis using inv enc unfolding e by (auto simp: table_inv_def)
  next
    case scan: None
    then have e: "off = length t" "t' = t @ enc @ [0]" "c' = c(py_upper ucd s0 \<mapsto> length t)"
      using r None enc by (auto simp: add_string_to_table_def Let_def)
    have l: "t = [] \<or> last t = 0" using inv by (simp add: table_inv_def)
    have a: "entry_at (t @ enc @ [0]) (length t) enc" by (rule entry_at_appended[OF l z])
    have "table_inv (t @ enc @ [0]) (c(py_upper ucd s0 \<mapsto> length t))"
      unfolding table_inv_def
    proof (intro conjI allI impI)
      show "t @ enc @ [0] = [] \<or> last (t @ enc @ [0]) = 0" by simp
    next
      fix s off'
      assume h: "(c(py_upper ucd s0 \<mapsto> length t)) s = Some off'"
      show "\<exists>enc'. utf8_encode s = Inr enc' \<and> entry_at (t @ enc @ [0]) off' enc'"
      proof (cases "s = py_upper ucd s0")
        case True
        then show ?thesis using h a enc by auto
      next
        case False
        then have "c s = Some off'" using h by simp
        then obtain enc' where "utf8_encode s = Inr enc'" "entry_at t off' enc'"
          using inv by (auto simp: table_inv_def)
        then show ?thesis using entry_at_append by blast
      qed
    qed
    then show ?thesis using a enc unfolding e by auto
  qed
qed

lemma add_string_to_table_returns:
  assumes "utf8_encode (py_upper ucd s0) = Inr enc"
  shows "\<exists>r. add_string_to_table ucd t c s0 = Inr r"
  using assms by (auto simp: add_string_to_table_def Let_def split: option.splits)

lemma intern_all_ok:
  assumes "table_inv t c"
    and "intern_all ucd ss t c = Inr (offs, t', c')"
    and "\<forall>s\<in>set ss. 0 \<notin> set (py_upper ucd s)"
  shows "table_inv t' c' \<and> (\<exists>x. t' = t @ x) \<and> length offs = length ss
         \<and> (\<forall>i<length ss. \<exists>enc. utf8_encode (py_upper ucd (ss ! i)) = Inr enc
                                    \<and> entry_at t' (offs ! i) enc)"
  using assms
proof (induction ss arbitrary: t c offs)
  case Nil
  then show ?case by simp
next
  case (Cons s ss)
  from Cons.prems(2) obtain off t1 c1 offs1 where
    a: "add_string_to_table ucd t c s = Inr (off, t1, c1)"
    and b: "intern_all ucd ss t1 c1 = Inr (offs1, t', c')" and o: "offs = off # offs1"
    by (auto split: sum.splits)
  from add_string_to_table_ok[OF Cons.prems(1) a] Cons.prems(3)
  obtain x enc where inv1: "table_inv t1 c1" and x: "t1 = t @ x"
    and enc: "utf8_encode (py_upper ucd s) = Inr enc" and e: "entry_at t1 off enc"
    by auto
  from Cons.IH[OF inv1 b] Cons.prems(3)
  obtain y where inv': "table_inv t' c'" and y: "t' = t1 @ y" and len: "length offs1 = length ss"
    and rest: "\<forall>i<length ss. \<exists>enc. utf8_encode (py_upper ucd (ss ! i)) = Inr enc
                                    \<and> entry_at t' (offs1 ! i) enc"
    by auto
  have e': "entry_at t' off enc" unfolding y by (rule entry_at_append[OF e])
  have "\<forall>i<length (s # ss). \<exists>enc. utf8_encode (py_upper ucd ((s # ss) ! i)) = Inr enc
                                    \<and> entry_at t' (offs ! i) enc"
  proof (intro allI impI)
    fix i assume "i < length (s # ss)"
    then show "\<exists>enc. utf8_encode (py_upper ucd ((s # ss) ! i)) = Inr enc
                                    \<and> entry_at t' (offs ! i) enc"
      using enc e' rest o by (cases i) auto
  qed
  then show ?case using inv' x y len o by auto
qed

lemma intern_all_returns:
  assumes "\<forall>s\<in>set ss. \<exists>enc. utf8_encode (py_upper ucd s) = Inr enc"
  shows "\<exists>r. intern_all ucd ss t c = Inr r"
  using assms
proof (induction ss arbitrary: t c)
  case Nil
  then show ?case by simp
next
  case (Cons s ss)
  from Cons.prems obtain enc where "utf8_encode (py_upper ucd s) = Inr enc" by auto
  from add_string_to_table_returns[OF this, of t c]
  obtain off t1 c1 where a: "add_string_to_table ucd t c s = Inr (off, t1, c1)"
    by (metis prod_cases3)
  from Cons.IH[of t1 c1] Cons.prems obtain offs t2 c2
    where "intern_all ucd ss t1 c1 = Inr (offs, t2, c2)"
    by (metis list.set_intros(2) prod_cases3)
  then show ?case using a by simp
qed

lemma table_inv_initial: "table_inv [0] Map.empty"
  by (simp add: table_inv_def)

lemma entry_at_unpack_string:
  assumes "utf8_encode s = Inr enc" "entry_at t off enc"
  shows "unpack_string_from_table t off = Inr s"
  using assms by (simp add: unpack_string_from_table_eq entry_at_lookup utf8_decode_encode)

text \<open>
  Claim C10: starting from the pre-seeded one-byte string table and an empty cache, after
  any sequence of calls of \<^verbatim>\<open>add_string_to_table\<close> on strings without a null character
  (the case mapping beyond ASCII producing none either), every offset returned lies in
  the table, begins an entry, the bytes of that entry are the UTF-8 encoding of the
  upper-cased string and are followed by a null byte, and \<^verbatim>\<open>unpack_string_from_table\<close> at
  that offset returns the upper-cased string. In any table, the scan runs its comparison
  only at offsets that begin an entry.
\<close>

theorem C10_intern:
  assumes "intern_all ucd ss [0] Map.empty = Inr (offs, t, c)"
    and "\<forall>cp. cp \<noteq> 0 \<longrightarrow> 0 \<notin> set (ucd cp)"
    and "\<forall>s\<in>set ss. 0 \<notin> set s"
  shows "length offs = length ss
    \<and> (\<forall>i<length ss.
          offs ! i < length t \<and> entry_start t (offs ! i)
          \<and> (\<exists>enc. utf8_encode (py_upper ucd (ss ! i)) = Inr enc
                   \<and> take (length enc) (drop (offs ! i) t) = enc
                   \<and> offs ! i + length enc < length t
                   \<and> t ! (offs ! i + length enc) = 0 \<and> 0 \<notin> set enc)
          \<and> unpack_string_from_table t (offs ! i) = Inr (py_upper ucd (ss ! i)))
    \<and> (\<forall>t' enc n p. p \<in> set (add_string_scan_trace t' enc n 0) \<longrightarrow> entry_start t' p)"
proof -
  have nz: "\<forall>s\<in>set ss. 0 \<notin> set (py_upper ucd s)"
    using assms(2,3) py_upper_null_free by blast
  from intern_all_ok[OF table_inv_initial assms(1) nz]
  have len: "length offs = length ss"
    and e: "\<forall>i<length ss. \<exists>enc. utf8_encode (py_upper ucd (ss ! i)) = Inr enc
                                    \<and> entry_at t (offs ! i) enc"
    by blast+
  have "\<forall>i<length ss.
          offs ! i < length t \<and> entry_start t (offs ! i)
          \<and> (\<exists>enc. utf8_encode (py_upper ucd (ss ! i)) = Inr enc
                   \<and> take (length enc) (drop (offs ! i) t) = enc
                   \<and> offs ! i + length enc < length t
                   \<and> t ! (offs ! i + length enc) = 0 \<and> 0 \<notin> set enc)
          \<and> unpack_string_from_table t (offs ! i) = Inr (py_upper ucd (ss ! i))"
  proof (intro allI impI)
    fix i assume "i < length ss"
    with e obtain enc where enc: "utf8_encode (py_upper ucd (ss ! i)) = Inr enc"
      and a: "entry_at t (offs ! i) enc" by blast
    have "unpack_string_from_table t (offs ! i) = Inr (py_upper ucd (ss ! i))"
      by (rule entry_at_unpack_string[OF enc a])
    moreover have "offs ! i < length t" using a by (simp add: entry_at_def)
    ultimately show "offs ! i < length t \<and> entry_start t (offs ! i)
          \<and> (\<exists>enc. utf8_encode (py_upper ucd (ss ! i)) = Inr enc
                   \<and> take (length enc) (drop (offs ! i) t) = enc
                   \<and> offs ! i + length enc < length t
                   \<and> t ! (offs ! i + length enc) = 0 \<and> 0 \<notin> set enc)
          \<and> unpack_string_from_table t (offs ! i) = Inr (py_upper ucd (ss ! i))"
      using enc a by (auto simp: entry_at_def)
  qed
  moreover have "\<forall>t' enc n p. p \<in> set (add_string_scan_trace t' enc n 0) \<longrightarrow> entry_start t' p"
    using scan_trace_entry_start[of _ 0] by (simp add: entry_start_def)
  ultimately show ?thesis using len by blast
qed

lemma intern_example:
  "\<exists>c. intern_all (\<lambda>cp. [cp]) [ascii ''ab'', ascii ''AB'', ascii ''c'', []] [0] Map.empty
        = Inr ([1, 1, 4, 0], [0, 65, 66, 0, 67, 0], c)"
  by (simp add: ascii_def add_string_to_table_def py_upper_def upper_cp_def encode_cp_def
      byte_of_def add_string_scan.simps)

theorem C10_intern_witness:
  "unpack_string_from_table [0, 65, 66, 0, 67, 0] 1 = Inr (ascii ''AB'')
   \<and> unpack_string_from_table [0, 65, 66, 0, 67, 0] 4 = Inr (ascii ''C'')
   \<and> unpack_string_from_table [0, 65, 66, 0, 67, 0] 0 = Inr []
   \<and> entry_start [0, 65, 66, 0, 67, 0] 4"
proof -
  let ?ss = "[ascii ''ab'', ascii ''AB'', ascii ''c'', []]"
  from intern_example obtain c where
    r: "intern_all (\<lambda>cp. [cp]) ?ss [0] Map.empty = Inr ([1, 1, 4, 0], [0, 65, 66, 0, 67, 0], c)"
    by blast
  have u: "\<forall>cp. cp \<noteq> 0 \<longrightarrow> 0 \<notin> set ((\<lambda>cp. [cp]) cp)" by simp
  have z: "\<forall>s\<in>set ?ss. 0 \<notin> set s" by (simp add: ascii_def)
  from C10_intern[OF r u z]
  have a: "\<forall>i<4. entry_start [0, 65, 66, 0, 67, 0] ([1, 1, 4, 0] ! i)
             \<and> unpack_string_from_table [0, 65, 66, 0, 67, 0] ([1, 1, 4, 0] ! i)
                 = Inr (py_upper (\<lambda>cp. [cp]) (?ss ! i))"
    by simp
  from a[rule_format, of 0] a[rule_format, of 2] a[rule_format, of 3]
  show ?thesis by (simp add: ascii_def py_upper_def upper_cp_def)
qed

subsection \<open>The layout\<close>

lemma ceil_div:
  fixes a b :: int
  assumes "0 < b"
  shows "(a + b - 1) div b = \<lceil>real_of_int a / real_of_int b\<rceil>"
proof -
  have r: "\<lceil>real_of_int a / real_of_int b\<rceil> = - (- a div b)"
    by (rule ceiling_divide_eq_div)
  have m: "0 \<le> a mod b" "a mod b < b" using assms by simp_all
  show ?thesis
  proof (cases "a mod b = 0")
    case True
    have "a + b - 1 = b * (a div b) + (b - 1)"
      using True mult_div_mod_eq[of b a] by simp
    then have "(a + b - 1) div b = a div b"
      using assms by (intro int_div_pos_eq[where r = "b - 1"]) simp_all
    moreover have "- a div b = - (a div b)"
      using True assms by (simp add: zdiv_zminus1_eq_if)
    ultimately show ?thesis using r by simp
  next
    case False
    have "a + b - 1 = b * (a div b + 1) + (a mod b - 1)"
      using mult_div_mod_eq[of b a] by (simp add: algebra_simps)
    then have "(a + b - 1) div b = a div b + 1"
      using assms m False by (intro int_div_pos_eq[where r = "a mod b - 1"]) simp_all
    moreover have "- a div b = - (a div b) - 1"
      using False assms by (simp add: zdiv_zminus1_eq_if)
    ultimately show ?thesis using r by simp
  qed
qed

lemma round_up_mod: "(p + (s - p mod s)) mod s = (0::int)"
proof -
  have "p + (s - p mod s) = s * (p div s + 1)"
    using mult_div_mod_eq[of s p] by (simp add: algebra_simps)
  then show ?thesis by simp
qed

lemma first_sector_layout_ok:
  assumes "0 < sector_size"
  shows "\<exists>first_sector_offset padding.
           first_sector_layout n m sector_size = Inr (first_sector_offset, padding)
           \<and> first_sector_offset mod sector_size = 0
           \<and> 40 + 16 * int n + int m \<le> first_sector_offset
           \<and> first_sector_offset < 40 + 16 * int n + int m + sector_size
           \<and> padding = first_sector_offset - (40 + 16 * int n + int m)"
proof -
  let ?pre = "40 + 16 * int n + int m"
  have m: "0 \<le> ?pre mod sector_size" "?pre mod sector_size < sector_size"
    using assms by simp_all
  show ?thesis
  proof (cases "?pre mod sector_size = 0")
    case True
    then show ?thesis using assms
      by (simp add: first_sector_layout_def Let_def algebra_simps)
  next
    case False
    have z: "(?pre + (sector_size - ?pre mod sector_size)) mod sector_size = 0"
      by (rule round_up_mod)
    have r: "first_sector_layout n m sector_size
             = Inr (?pre + (sector_size - ?pre mod sector_size), sector_size - ?pre mod sector_size)"
      using False assms by (simp add: first_sector_layout_def Let_def algebra_simps)
    show ?thesis unfolding r using z m False by simp
  qed
qed

lemma assign_sectors_length: "length (fst (assign_sectors ss cur es)) = length es"
  by (induction es arbitrary: cur) (simp_all add: Let_def)

lemma assign_sectors_snd:
  "snd (assign_sectors ss cur es) = cur + (\<Sum>k<length es. (pe_size (es ! k) + ss - 1) div ss)"
proof (induction es arbitrary: cur)
  case Nil
  then show ?case by simp
next
  case (Cons e es)
  show ?case by (simp add: Let_def Cons sum.lessThan_Suc_shift del: sum.lessThan_Suc)
qed

lemma assign_sectors_nth:
  "i < length es \<Longrightarrow>
   fst (assign_sectors ss cur es) ! i
     = (es ! i)\<lparr>pe_start_sector := cur + (\<Sum>k<i. (pe_size (es ! k) + ss - 1) div ss)\<rparr>"
proof (induction es arbitrary: cur i)
  case Nil
  then show ?case by simp
next
  case (Cons e es)
  show ?case
  proof (cases i)
    case 0
    then show ?thesis by (simp add: Let_def)
  next
    case (Suc j)
    then have "j < length es" using Cons.prems by simp
    from Cons.IH[OF this] show ?thesis
      by (simp add: Suc Let_def sum.lessThan_Suc_shift del: sum.lessThan_Suc)
  qed
qed

lemma add_file_fields:
  assumes "add_file h f (ft, st, sc, n) = Inr (ft', st', sc', n')"
  shows "\<exists>entry. ft' = ft @ [entry] \<and> pe_path entry = fi_path f \<and> pe_size entry = fi_size f
                 \<and> pe_start_sector entry = 0"
  using assms by (auto simp: add_file_def Let_def split: sum.splits)

lemma for_each_add_file_fields:
  assumes "for_each (add_file h) fs (ft, st, sc, n) = Inr (ft', st', sc', n')"
  shows "map pe_path ft' = map pe_path ft @ map fi_path fs
         \<and> map pe_size ft' = map pe_size ft @ map fi_size fs"
  using assms
proof (induction fs arbitrary: ft st sc n)
  case Nil
  then show ?case by simp
next
  case (Cons f fs)
  from Cons.prems obtain ft1 st1 sc1 n1 where
    a: "add_file h f (ft, st, sc, n) = Inr (ft1, st1, sc1, n1)"
    and b: "for_each (add_file h) fs (ft1, st1, sc1, n1) = Inr (ft', st', sc', n')"
    by (auto split: sum.splits)
  from add_file_fields[OF a] Cons.IH[OF b] show ?case by auto
qed

lemma build_tables_fields:
  assumes "build_tables h file_paths = Inr (file_table0, string_table, string_cache, n)"
  shows "map pe_path file_table0 = map fi_path file_paths"
    and "map pe_size file_table0 = map fi_size file_paths"
    and "length file_table0 = length file_paths"
proof -
  from for_each_add_file_fields[OF assms[unfolded build_tables_def]]
  show a: "map pe_path file_table0 = map fi_path file_paths"
    and "map pe_size file_table0 = map fi_size file_paths" by simp_all
  from a show "length file_table0 = length file_paths" by (metis length_map)
qed

text \<open>
  Claim C2: for every list of discovered files and every positive sector size, the layout
  computation of \<^verbatim>\<open>pack_cdfs\<close> sets \<^verbatim>\<open>first_sector_offset\<close> to the preamble size (40 bytes
  of header, 16 bytes per file-table entry, the string table) rounded up to the next
  multiple of the sector size; the file table keeps the discovery order, entry \<open>i\<close>
  starting at the sum of \<open>ceil(size / sector_size)\<close> over the entries before it (so the
  first at 0); and \<^verbatim>\<open>current_sector\<close>, written into the header as the total, is that sum
  over all entries.
\<close>

theorem C2_layout:
  assumes "0 < sector_size"
    and "build_tables h file_paths = Inr (file_table0, string_table, string_cache, n)"
  shows "(\<exists>first_sector_offset padding.
            first_sector_layout (length file_table0) (length string_table) sector_size
              = Inr (first_sector_offset, padding)
            \<and> first_sector_offset mod sector_size = 0
            \<and> 40 + 16 * int (length file_paths) + int (length string_table) \<le> first_sector_offset
            \<and> first_sector_offset
                < 40 + 16 * int (length file_paths) + int (length string_table) + sector_size)
    \<and> length (fst (assign_sectors sector_size 0 file_table0)) = length file_paths
    \<and> (\<forall>i<length file_paths.
          pe_path (fst (assign_sectors sector_size 0 file_table0) ! i) = fi_path (file_paths ! i)
          \<and> pe_size (fst (assign_sectors sector_size 0 file_table0) ! i) = fi_size (file_paths ! i)
          \<and> pe_start_sector (fst (assign_sectors sector_size 0 file_table0) ! i)
              = (\<Sum>k<i. \<lceil>real_of_int (fi_size (file_paths ! k)) / real_of_int sector_size\<rceil>))
    \<and> snd (assign_sectors sector_size 0 file_table0)
        = (\<Sum>k<length file_paths.
             \<lceil>real_of_int (fi_size (file_paths ! k)) / real_of_int sector_size\<rceil>)"
proof -
  note f = build_tables_fields[OF assms(2)]
  have sz: "\<And>k. k < length file_paths \<Longrightarrow> pe_size (file_table0 ! k) = fi_size (file_paths ! k)"
    using f(2) f(3) by (metis nth_map)
  have pa: "\<And>k. k < length file_paths \<Longrightarrow> pe_path (file_table0 ! k) = fi_path (file_paths ! k)"
    using f(1) f(3) by (metis nth_map)
  have c: "\<And>k. k < length file_paths \<Longrightarrow>
              (pe_size (file_table0 ! k) + sector_size - 1) div sector_size
              = \<lceil>real_of_int (fi_size (file_paths ! k)) / real_of_int sector_size\<rceil>"
    using ceil_div[OF assms(1)] sz by simp
  have 1: "\<exists>first_sector_offset padding.
            first_sector_layout (length file_table0) (length string_table) sector_size
              = Inr (first_sector_offset, padding)
            \<and> first_sector_offset mod sector_size = 0
            \<and> 40 + 16 * int (length file_paths) + int (length string_table) \<le> first_sector_offset
            \<and> first_sector_offset
                < 40 + 16 * int (length file_paths) + int (length string_table) + sector_size"
    using first_sector_layout_ok[OF assms(1), of "length file_table0" "length string_table"]
    unfolding f(3) by auto
  have 2: "length (fst (assign_sectors sector_size 0 file_table0)) = length file_paths"
    by (simp add: assign_sectors_length f(3))
  have 3: "\<forall>i<length file_paths.
          pe_path (fst (assign_sectors sector_size 0 file_table0) ! i) = fi_path (file_paths ! i)
          \<and> pe_size (fst (assign_sectors sector_size 0 file_table0) ! i) = fi_size (file_paths ! i)
          \<and> pe_start_sector (fst (assign_sectors sector_size 0 file_table0) ! i)
              = (\<Sum>k<i. \<lceil>real_of_int (fi_size (file_paths ! k)) / real_of_int sector_size\<rceil>)"
  proof (intro allI impI)
    fix i assume i: "i < length file_paths"
    then have i': "i < length file_table0" by (simp add: f(3))
    have "(\<Sum>k<i. (pe_size (file_table0 ! k) + sector_size - 1) div sector_size)
          = (\<Sum>k<i. \<lceil>real_of_int (fi_size (file_paths ! k)) / real_of_int sector_size\<rceil>)"
      using i by (intro sum.cong) (auto simp: c)
    then show "pe_path (fst (assign_sectors sector_size 0 file_table0) ! i) = fi_path (file_paths ! i)
          \<and> pe_size (fst (assign_sectors sector_size 0 file_table0) ! i) = fi_size (file_paths ! i)
          \<and> pe_start_sector (fst (assign_sectors sector_size 0 file_table0) ! i)
              = (\<Sum>k<i. \<lceil>real_of_int (fi_size (file_paths ! k)) / real_of_int sector_size\<rceil>)"
      using assign_sectors_nth[OF i', of sector_size 0] sz[OF i] pa[OF i] by simp
  qed
  have 4: "snd (assign_sectors sector_size 0 file_table0)
        = (\<Sum>k<length file_paths.
             \<lceil>real_of_int (fi_size (file_paths ! k)) / real_of_int sector_size\<rceil>)"
    unfolding assign_sectors_snd f(3) by (simp add: c)
  from 1 2 3 4 show ?thesis by blast
qed

definition example_files :: "file_info list" where
  "example_files =
     [\<lparr>fi_path = ascii ''in/a.txt'', fi_rel_path = ascii ''a.txt'', fi_size = 3\<rparr>,
      \<lparr>fi_path = ascii ''in/sub/b.txt'', fi_rel_path = ascii ''sub/b.txt'', fi_size = 5\<rparr>]"

definition example_read :: "str \<Rightarrow> py_error + bytes" where
  "example_read p =
     (if p = ascii ''in/a.txt'' then Inr [1, 2, 3]
      else if p = ascii ''in/sub/b.txt'' then Inr [4, 5, 6, 7, 8]
      else Inl OSError)"

lemma example_build_tables:
  "\<exists>sc. build_tables (posix_host example_read) example_files
     = Inr ([\<lparr>pe_file_name_offset = 1, pe_dir_name_offset = 0, pe_path = ascii ''in/a.txt'',
              pe_size = 3, pe_start_sector = 0\<rparr>,
             \<lparr>pe_file_name_offset = 7, pe_dir_name_offset = 0, pe_path = ascii ''in/sub/b.txt'',
              pe_size = 5, pe_start_sector = 0\<rparr>],
            [0, 65, 46, 84, 88, 84, 0, 83, 85, 66, 92, 66, 46, 84, 88, 84, 0], sc, 3)"
  by (simp add: build_tables_def example_files_def add_file_def posix_host_def posix_split_def
      replace_cp_def ascii_def add_string_to_table_def py_upper_def upper_cp_def encode_cp_def
      byte_of_def add_string_scan.simps Let_def)

theorem C2_layout_witness:
  "first_sector_layout 2 17 4 = Inr (92, 3)
   \<and> map pe_start_sector (fst (assign_sectors 4 0
        [\<lparr>pe_file_name_offset = 1, pe_dir_name_offset = 0, pe_path = ascii ''in/a.txt'',
              pe_size = 3, pe_start_sector = 0\<rparr>,
             \<lparr>pe_file_name_offset = 7, pe_dir_name_offset = 0, pe_path = ascii ''in/sub/b.txt'',
              pe_size = 5, pe_start_sector = 0\<rparr>])) = [0, 1]
   \<and> snd (assign_sectors 4 0
        [\<lparr>pe_file_name_offset = 1, pe_dir_name_offset = 0, pe_path = ascii ''in/a.txt'',
              pe_size = 3, pe_start_sector = 0\<rparr>,
             \<lparr>pe_file_name_offset = 7, pe_dir_name_offset = 0, pe_path = ascii ''in/sub/b.txt'',
              pe_size = 5, pe_start_sector = 0\<rparr>]) = 3"
proof -
  from example_build_tables obtain sc where
    b: "build_tables (posix_host example_read) example_files
     = Inr ([\<lparr>pe_file_name_offset = 1, pe_dir_name_offset = 0, pe_path = ascii ''in/a.txt'',
              pe_size = 3, pe_start_sector = 0\<rparr>,
             \<lparr>pe_file_name_offset = 7, pe_dir_name_offset = 0, pe_path = ascii ''in/sub/b.txt'',
              pe_size = 5, pe_start_sector = 0\<rparr>],
            [0, 65, 46, 84, 88, 84, 0, 83, 85, 66, 92, 66, 46, 84, 88, 84, 0], sc, 3)"
    by blast
  have p: "(0::int) < 4" by simp
  from C2_layout[OF p b] show ?thesis
    by (simp add: example_files_def first_sector_layout_def Let_def)
qed

subsection \<open>Writing into a file\<close>

lemma length_write_at:
  "length (write_at f pos data) = max (length f) (pos + length data)"
  by (auto simp: write_at_def)

lemma length_write_at_inside:
  "pos + length data \<le> length f \<Longrightarrow> length (write_at f pos data) = length f"
  by (simp add: length_write_at)

lemma nth_write_at_inside:
  assumes "pos \<le> p" "p < pos + length data" "pos \<le> length f"
  shows "write_at f pos data ! p = data ! (p - pos)"
proof -
  have w: "write_at f pos data = take pos f @ data @ drop (pos + length data) f"
    using assms(3) by (simp add: write_at_def)
  have l: "length (take pos f) = pos" using assms(3) by simp
  have "(take pos f @ data @ drop (pos + length data) f) ! p
          = (data @ drop (pos + length data) f) ! (p - pos)"
    using assms(1) l by (metis leD nth_append)
  also have "\<dots> = data ! (p - pos)"
    using assms(1,2) by (intro nth_append_left) linarith
  finally show ?thesis unfolding w .
qed

lemma nth_write_at_outside:
  assumes "p < pos \<or> pos + length data \<le> p" "p < length f"
  shows "write_at f pos data ! p = f ! p"
proof (cases "p < pos")
  case True
  then show ?thesis using assms(2) by (simp add: write_at_def nth_append)
next
  case False
  then have a: "pos + length data \<le> p" using assms(1) by simp
  then have pl: "pos \<le> length f" using assms(2) by simp
  have w: "write_at f pos data = (take pos f @ data) @ drop (pos + length data) f"
    using pl by (simp add: write_at_def)
  have l: "length (take pos f @ data) = pos + length data" using pl by simp
  have "((take pos f @ data) @ drop (pos + length data) f) ! p
          = drop (pos + length data) f ! (p - (pos + length data))"
    using a l by (metis nth_append_right)
  also have "\<dots> = f ! p" using a assms(2) by simp
  finally show ?thesis unfolding w .
qed

lemma write_at_in_bounds:
  assumes "pos + length data \<le> length f"
  shows "write_at f pos data = take pos f @ data @ drop (pos + length data) f"
  using assms by (simp add: write_at_def)


lemma sector_padding_nonneg:
  fixes n ss :: int
  shows "0 < ss \<Longrightarrow> 0 \<le> (ss - n mod ss) mod ss"
  by simp




lemma assign_sectors_path:
  "i < length es \<Longrightarrow> pe_path (fst (assign_sectors ss cur es) ! i) = pe_path (es ! i)"
  by (simp add: assign_sectors_nth)







subsection \<open>The verifier\<close>

lemma verify_entry_None:
  "(verify_entry string_table_data hdr file_size idx entry = None) =
     (h_first_sector_offset hdr + fe_start_sector entry * h_sector_size hdr + fe_length entry
        \<le> file_size
      \<and> fe_file_name_offset entry < h_string_table_length hdr
      \<and> fe_dir_name_offset entry < h_string_table_length hdr
      \<and> (\<exists>file_name. unpack_string_from_table string_table_data (fe_file_name_offset entry)
                        = Inr file_name)
      \<and> (\<exists>dir_name. unpack_string_from_table string_table_data (fe_dir_name_offset entry)
                       = Inr dir_name))"
  by (auto simp: verify_entry_def Let_def split: sum.splits)

lemma verify_entries_None:
  "(verify_entries string_table_data hdr file_size idx file_table = None) =
     list_all (\<lambda>entry. verify_entry string_table_data hdr file_size 0 entry = None) file_table"
proof (induction file_table arbitrary: idx)
  case Nil
  then show ?case by simp
next
  case (Cons entry rest)
  have "(verify_entry string_table_data hdr file_size idx entry = None)
        = (verify_entry string_table_data hdr file_size 0 entry = None)"
    by (simp add: verify_entry_None)
  then show ?case using Cons by (auto split: option.splits)
qed

lemma struct_unpack_I_length:
  "length data = 4 * n \<Longrightarrow> \<exists>v. struct_unpack_I n data = Inr v \<and> length v = n"
  by (simp add: struct_unpack_I_def)

lemma verify_read_table_Inr:
  assumes "verify_read_table f pos i n = Inr file_table"
  shows "length file_table = n \<and> (0 < n \<longrightarrow> pos + 16 * n \<le> length f)
         \<and> read_file_table f pos n = Inr file_table"
  using assms
proof (induction n arbitrary: pos i file_table)
  case 0
  then show ?case by simp
next
  case (Suc n)
  from Suc.prems have l: "\<not> length (take 16 (drop pos f)) < 16"
    by (auto simp: Let_def split: if_splits)
  then have p: "pos + 16 \<le> length f" by simp
  from Suc.prems l obtain v rest where
    v: "struct_unpack_I 4 (take 16 (drop pos f)) = Inr v"
    and r: "verify_read_table f (pos + 16) (i + 1) n = Inr rest"
    and ft: "file_table = \<lparr>fe_file_name_offset = v ! 0, fe_dir_name_offset = v ! 1,
                           fe_start_sector = v ! 2, fe_length = v ! 3\<rparr> # rest"
    by (auto simp: Let_def split: if_splits sum.splits)
  from Suc.IH[OF r] have ih: "length rest = n" "0 < n \<longrightarrow> pos + 16 + 16 * n \<le> length f"
    "read_file_table f (pos + 16) n = Inr rest" by auto
  show ?case using p v ih ft by (cases "n = 0") auto
qed

text \<open>
  An archive of 41 bytes: a header with the right magic, sector size 3, first sector
  offset 1, 1000 sectors in total, no file, and a string table of one null byte.
\<close>

definition misaligned_archive :: bytes where
  "misaligned_archive =
     [83, 70, 68, 67,  1, 0, 0, 0,  3, 0, 0, 0,  0, 0, 0, 0,  1, 0, 0, 0,
      232, 3, 0, 0,  0, 0, 0, 0,  0, 0, 0, 0,  1, 0, 0, 0,  1, 0, 0, 0,  0]"

lemma misaligned_header:
  "unpack_header [83, 70, 68, 67,  1, 0, 0, 0,  3, 0, 0, 0,  0, 0, 0, 0,  1, 0, 0, 0,
      232, 3, 0, 0,  0, 0, 0, 0,  0, 0, 0, 0,  1, 0, 0, 0,  1, 0, 0, 0] =
     Inr \<lparr>h_magic = CDFS_MAGIC, h_version = 1, h_sector_size = 3, h_recommended_cache_size = 0,
          h_first_sector_offset = 1, h_total_sectors = 1000, h_file_table_length = 0,
          h_file_table_entries = 0, h_string_table_length = 1, h_string_table_entries = 1\<rparr>"
  by (simp add: unpack_header_def struct_unpack_I_def unpack_u32_def
      CDFS_MAGIC_def upt_rec[of _ "numeral n" for n])

text \<open>
  Claim C6, as stated: every archive that \<^verbatim>\<open>verify_cdfs\<close> accepts has a first sector
  offset that is a multiple of the sector size and at least the size of the header and
  the two tables, and \<open>total_sectors * sector_size + first_sector_offset\<close> within the
  archive size. The 41-byte archive above is accepted and has none of the three.
\<close>

theorem C6_unchecked_invariants_counterexample:
  "fst (verify_cdfs misaligned_archive)
   \<and> (case unpack_header (take 40 misaligned_archive) of
        Inl e \<Rightarrow> False
      | Inr hdr \<Rightarrow>
          h_first_sector_offset hdr mod h_sector_size hdr \<noteq> 0
          \<and> h_first_sector_offset hdr < 40 + h_file_table_length hdr + h_string_table_length hdr
          \<and> length misaligned_archive
              < h_total_sectors hdr * h_sector_size hdr + h_first_sector_offset hdr)"
proof -
  have "verify_cdfs misaligned_archive = (True, [])"
    by (simp add: verify_cdfs_def misaligned_archive_def misaligned_header Let_def
        CDFS_VERSION_def)
  then show ?thesis by (simp add: misaligned_archive_def misaligned_header)
qed

text \<open>
  Claim C6, amended: every archive that \<^verbatim>\<open>verify_cdfs\<close> accepts has at least 40 bytes and the
  CDFS magic; its first sector offset is at most the archive size; its file table length
  is 16 times its number of entries; its file table and its string table lie inside
  the archive; and for every entry of the file table,
  \<open>first_sector_offset + start_sector * sector_size + length\<close> is at most the archive
  size, both string offsets are below the string table length, and both strings decode.
  (The alignment of the first sector offset, its lower bound and the total number of
  sectors are not checked.)
\<close>

theorem C6_verify_accepts:
  assumes "fst (verify_cdfs input_file)"
  shows "\<exists>hdr file_table.
           unpack_header (take 40 input_file) = Inr hdr
         \<and> read_file_table input_file 40 (h_file_table_entries hdr) = Inr file_table
         \<and> length file_table = h_file_table_entries hdr
         \<and> 40 \<le> length input_file
         \<and> h_magic hdr = CDFS_MAGIC
         \<and> h_first_sector_offset hdr \<le> length input_file
         \<and> h_file_table_entries hdr * 16 = h_file_table_length hdr
         \<and> 40 + h_file_table_length hdr + h_string_table_length hdr \<le> length input_file
         \<and> list_all
              (\<lambda>entry.
                 h_first_sector_offset hdr + fe_start_sector entry * h_sector_size hdr
                   + fe_length entry \<le> length input_file
                 \<and> fe_file_name_offset entry < h_string_table_length hdr
                 \<and> fe_dir_name_offset entry < h_string_table_length hdr
                 \<and> (\<exists>file_name.
                        unpack_string_from_table
                          (take (h_string_table_length hdr)
                             (drop (40 + 16 * h_file_table_entries hdr) input_file))
                          (fe_file_name_offset entry) = Inr file_name)
                 \<and> (\<exists>dir_name.
                        unpack_string_from_table
                          (take (h_string_table_length hdr)
                             (drop (40 + 16 * h_file_table_entries hdr) input_file))
                          (fe_dir_name_offset entry) = Inr dir_name))
              file_table"
proof -
  let ?st = "\<lambda>hdr. take (h_string_table_length hdr)
                       (drop (40 + 16 * h_file_table_entries hdr) input_file)"
  from assms have l: "40 \<le> length input_file"
    by (auto simp: verify_cdfs_def Let_def split: if_splits)
  from assms l obtain hdr where hdr: "unpack_header (take 40 input_file) = Inr hdr"
    by (auto simp: verify_cdfs_def Let_def split: if_splits sum.splits)
  from assms l hdr have m: "h_magic hdr = CDFS_MAGIC"
    and f: "h_first_sector_offset hdr \<le> length input_file"
    and t: "h_file_table_entries hdr * 16 = h_file_table_length hdr"
    by (auto simp: verify_cdfs_def Let_def split: if_splits)
  from assms l hdr m f t obtain file_table where
    ft: "verify_read_table input_file 40 0 (h_file_table_entries hdr) = Inr file_table"
    by (auto simp: verify_cdfs_def Let_def split: if_splits sum.splits)
  from assms l hdr m f t ft have s: "\<not> length (?st hdr) < h_string_table_length hdr"
    and e: "verify_entries (?st hdr) hdr (length input_file) 0 file_table = None"
    by (auto simp: verify_cdfs_def Let_def split: if_splits option.splits)
  from verify_read_table_Inr[OF ft]
  have r: "read_file_table input_file 40 (h_file_table_entries hdr) = Inr file_table"
    and n: "length file_table = h_file_table_entries hdr"
    and p: "0 < h_file_table_entries hdr \<longrightarrow> 40 + 16 * h_file_table_entries hdr \<le> length input_file"
    by auto
  have b: "40 + h_file_table_length hdr + h_string_table_length hdr \<le> length input_file"
  proof (cases "h_string_table_length hdr = 0")
    case True
    then show ?thesis using p l t by (cases "h_file_table_entries hdr = 0") auto
  next
    case False
    then show ?thesis using s t by auto
  qed
  have "list_all (\<lambda>entry. verify_entry (?st hdr) hdr (length input_file) 0 entry = None) file_table"
    using e by (simp add: verify_entries_None)
  then have "list_all
              (\<lambda>entry.
                 h_first_sector_offset hdr + fe_start_sector entry * h_sector_size hdr
                   + fe_length entry \<le> length input_file
                 \<and> fe_file_name_offset entry < h_string_table_length hdr
                 \<and> fe_dir_name_offset entry < h_string_table_length hdr
                 \<and> (\<exists>file_name.
                        unpack_string_from_table (?st hdr) (fe_file_name_offset entry)
                          = Inr file_name)
                 \<and> (\<exists>dir_name.
                        unpack_string_from_table (?st hdr) (fe_dir_name_offset entry)
                          = Inr dir_name))
              file_table"
    by (simp add: verify_entry_None)
  then show ?thesis using hdr r n l m f t b by blast
qed

subsection \<open>The example archive\<close>

text \<open>
  The archive that packing the two example files with sector size 4 gives (104 bytes).
\<close>

definition example_archive :: bytes where
  "example_archive =
     [83, 70, 68, 67, 1, 0, 0, 0, 4, 0, 0, 0, 0, 0, 2, 0, 92, 0, 0, 0, 3, 0,
      0, 0, 32, 0, 0, 0, 2, 0, 0, 0, 17, 0, 0, 0, 3, 0, 0, 0, 1, 0, 0, 0, 0,
      0, 0, 0, 0, 0, 0, 0, 3, 0, 0, 0, 7, 0, 0, 0, 0, 0, 0, 0, 1, 0, 0, 0,
      5, 0, 0, 0, 0, 65, 46, 84, 88, 84, 0, 83, 85, 66, 92, 66, 46, 84, 88,
      84, 0, 0, 0, 0, 1, 2, 3, 0, 4, 5, 6, 7, 8, 0, 0, 0]"

definition example_header_value :: header where
  "example_header_value =
     \<lparr>h_magic = CDFS_MAGIC, h_version = 1, h_sector_size = 4,
      h_recommended_cache_size = 131072, h_first_sector_offset = 92, h_total_sectors = 3,
      h_file_table_length = 32, h_file_table_entries = 2, h_string_table_length = 17,
      h_string_table_entries = 3\<rparr>"

definition example_string_table :: bytes where
  "example_string_table = [0, 65, 46, 84, 88, 84, 0, 83, 85, 66, 92, 66, 46, 84, 88, 84, 0]"

definition example_entries :: "file_entry list" where
  "example_entries =
     [\<lparr>fe_file_name_offset = 1, fe_dir_name_offset = 0, fe_start_sector = 0, fe_length = 3\<rparr>,
      \<lparr>fe_file_name_offset = 7, fe_dir_name_offset = 0, fe_start_sector = 1, fe_length = 5\<rparr>]"

lemma example_header: "unpack_header (take 40 example_archive) = Inr example_header_value"
  by (simp add: example_archive_def example_header_value_def unpack_header_def
      struct_unpack_I_def unpack_u32_def CDFS_MAGIC_def upt_rec[of _ "numeral n" for n])

lemma example_length: "length example_archive = 104"
  by (simp add: example_archive_def)

lemma example_read_file_table:
  "read_file_table example_archive 40 (h_file_table_entries example_header_value)
     = Inr example_entries"
proof -
  have "read_file_table example_archive 40 (Suc (Suc 0)) = Inr example_entries"
    by (simp add: example_archive_def example_entries_def struct_unpack_I_def unpack_u32_def
        upt_rec[of _ "numeral n" for n])
  then show ?thesis by (simp add: example_header_value_def numeral_2_eq_2)
qed

lemma example_verify_read_table:
  "verify_read_table example_archive 40 0 (h_file_table_entries example_header_value)
     = Inr example_entries"
proof -
  have "verify_read_table example_archive 40 0 (Suc (Suc 0)) = Inr example_entries"
    by (simp add: example_archive_def example_entries_def struct_unpack_I_def unpack_u32_def
        upt_rec[of _ "numeral n" for n] Let_def)
  then show ?thesis by (simp add: example_header_value_def numeral_2_eq_2)
qed

lemma example_string_table_data:
  "take (h_string_table_length example_header_value)
     (drop (40 + 16 * h_file_table_entries example_header_value) example_archive)
   = example_string_table"
  by (simp add: example_archive_def example_header_value_def example_string_table_def)

lemma utf8_decode_ascii:
  "list_all (\<lambda>b. unat b < 0x80) bs \<Longrightarrow> utf8_decode bs = Inr (map unat bs)"
proof (induction bs)
  case Nil
  then show ?case by (simp add: utf8_decode_Nil)
next
  case (Cons b bs)
  then show ?case by (simp add: utf8_decode_Cons decode_one_1)
qed

lemma example_lookups:
  "unpack_string_from_table example_string_table 0 = Inr []"
  "unpack_string_from_table example_string_table 1 = Inr (ascii ''A.TXT'')"
  "unpack_string_from_table example_string_table 7 = Inr (ascii ''SUB'' @ [92] @ ascii ''B.TXT'')"
  by (simp_all add: unpack_string_from_table_eq example_string_table_def utf8_decode_ascii
      ascii_def)

lemma example_verify: "verify_cdfs example_archive = (True, [])"
proof -
  have e: "verify_entries example_string_table example_header_value 104 0 example_entries = None"
    unfolding verify_entries_None using example_lookups
    by (simp add: verify_entry_None example_entries_def example_header_value_def)
  show ?thesis
    unfolding verify_cdfs_def Let_def
    by (simp add: example_header example_length example_verify_read_table
        example_string_table_data e)
      (simp add: example_header_value_def CDFS_VERSION_def example_string_table_def)
qed

theorem C6_verify_accepts_witness:
  "fst (verify_cdfs example_archive)
   \<and> (\<exists>hdr file_table.
         unpack_header (take 40 example_archive) = Inr hdr
       \<and> read_file_table example_archive 40 (h_file_table_entries hdr) = Inr file_table
       \<and> h_first_sector_offset hdr \<le> length example_archive
       \<and> 40 + h_file_table_length hdr + h_string_table_length hdr \<le> length example_archive
       \<and> list_all
            (\<lambda>entry.
               h_first_sector_offset hdr + fe_start_sector entry * h_sector_size hdr
                 + fe_length entry \<le> length example_archive)
            file_table)"
proof -
  have a: "fst (verify_cdfs example_archive)" by (simp add: example_verify)
  from C6_verify_accepts[OF a] obtain hdr file_table where
    "unpack_header (take 40 example_archive) = Inr hdr"
    "read_file_table example_archive 40 (h_file_table_entries hdr) = Inr file_table"
    "h_first_sector_offset hdr \<le> length example_archive"
    "40 + h_file_table_length hdr + h_string_table_length hdr \<le> length example_archive"
    "list_all
            (\<lambda>entry.
               h_first_sector_offset hdr + fe_start_sector entry * h_sector_size hdr
                 + fe_length entry \<le> length example_archive
                 \<and> fe_file_name_offset entry < h_string_table_length hdr
                 \<and> fe_dir_name_offset entry < h_string_table_length hdr
                 \<and> (\<exists>file_name.
                        unpack_string_from_table
                          (take (h_string_table_length hdr)
                             (drop (40 + 16 * h_file_table_entries hdr) example_archive))
                          (fe_file_name_offset entry) = Inr file_name)
                 \<and> (\<exists>dir_name.
                        unpack_string_from_table
                          (take (h_string_table_length hdr)
                             (drop (40 + 16 * h_file_table_entries hdr) example_archive))
                          (fe_dir_name_offset entry) = Inr dir_name))
            file_table"
    by blast
  moreover from this(5) have "list_all
            (\<lambda>entry.
               h_first_sector_offset hdr + fe_start_sector entry * h_sector_size hdr
                 + fe_length entry \<le> length example_archive)
            file_table"
    by (simp add: list_all_iff)
  ultimately show ?thesis using a by blast
qed

end
